theory Spec2Isabelle
  imports Complex_Main
begin

section \<open>Householder QR and block power SVD of \<open>qr.py\<close>\<close>

text \<open>
  Scalars are complex numbers (a real array is a complex one with zero imaginary parts),
  in exact arithmetic. A division by zero does not raise in the array library: it
  puts an infinity or a NaN into the result. The model makes that visible as the result
  \<open>Inl NonFinite\<close>, so that "the result is a well-defined finite array" is the
  statement that the model returns \<open>Inr\<close>. An index into an array of size zero is
  \<open>Inl IndexError\<close>.
\<close>

subsection \<open>Errors\<close>

datatype arg = IntArg int | StrArg string

datatype error =
    NotImplementedError string
  | ValueError string arg
  | TypeError
  | IndexError
  | NonFinite

subsection \<open>One-dimensional arrays\<close>

type_synonym vec = "complex list"

definition fdiv :: "'a::field \<Rightarrow> 'a \<Rightarrow> error + 'a" where
  "fdiv a b = (if b = 0 then Inl NonFinite else Inr (a / b))"

fun vdiv :: "vec \<Rightarrow> complex \<Rightarrow> error + vec" where
  "vdiv [] d = Inr []"
| "vdiv (x # xs) d =
     (case fdiv x d of
        Inl e \<Rightarrow> Inl e
      | Inr y \<Rightarrow> (case vdiv xs d of Inl e \<Rightarrow> Inl e | Inr ys \<Rightarrow> Inr (y # ys)))"

definition linalg_norm :: "vec \<Rightarrow> real" where
  "linalg_norm xs = sqrt (\<Sum>z\<leftarrow>xs. (cmod z)\<^sup>2)"

subsection \<open>Utilities\<close>

definition sign :: "complex \<Rightarrow> complex" where
  "sign num = (if num = 0 then 0 * num else num / complex_of_real (cmod num))"

subsection \<open>Computation of Householder vectors\<close>

definition house_zero_norm :: "vec \<Rightarrow> error + vec \<times> real" where
  "house_zero_norm x_in =
     (case x_in of
        [] \<Rightarrow> Inl IndexError
      | x0 # _ \<Rightarrow>
          let v_out = x_in[0 := 1];
              beta = Re (if x0 = 0 then x0 * 0 else x0 * 0 + 2)
          in Inr (v_out, beta))"

definition house_nonzero_norm :: "vec \<times> real \<Rightarrow> error + vec \<times> real" where
  "house_nonzero_norm xtup =
     (case xtup of (x_in, x_2_norm) \<Rightarrow>
      (case x_in of
        [] \<Rightarrow> Inl IndexError
      | x0 # x_tail \<Rightarrow>
          let x_norm = linalg_norm [x0, complex_of_real x_2_norm];
              rho = sign x0 * complex_of_real x_norm;
              v_1p = x0 + rho;
              v_1pabs = cmod v_1p;
              v_1m = x0 - rho;
              v_1mabs = cmod v_1m;
              (v_1, v_1abs) = (if v_1pabs \<ge> v_1mabs then (v_1p, v_1pabs) else (v_1m, v_1mabs))
          in (case vdiv x_tail v_1 of
                Inl e \<Rightarrow> Inl e
              | Inr v_tail \<Rightarrow>
                  let v_out = (x0 # v_tail)[0 := 1]
                  in (case fdiv x_2_norm v_1abs of
                        Inl e \<Rightarrow> Inl e
                      | Inr v_2_norm \<Rightarrow>
                          let v_norm_sqr = 1 + v_2_norm\<^sup>2
                          in (case fdiv 2 v_norm_sqr of
                                Inl e \<Rightarrow> Inl e
                              | Inr beta \<Rightarrow> Inr (v_out, beta))))))"

definition house :: "vec \<Rightarrow> error + vec \<times> real" where
  "house x_in =
     (let x_2_norm = linalg_norm (drop 1 x_in);
          switch = (x_2_norm = 0)
      in if switch then house_zero_norm x_in
         else house_nonzero_norm (x_in, x_2_norm))"

subsection \<open>Two-dimensional arrays\<close>

text \<open>
  A two-dimensional array is its shape and its entries. Entries outside the shape are
  never read by the operations below on arrays of matching shapes, and the theorems
  speak of the entries inside the shape only.
\<close>

record mat =
  nrows :: nat
  ncols :: nat
  ent :: "nat \<Rightarrow> nat \<Rightarrow> complex"

definition mat_of_rows :: "complex list list \<Rightarrow> mat" where
  "mat_of_rows rs =
     \<lparr>nrows = length rs,
      ncols = (case rs of [] \<Rightarrow> 0 | r # _ \<Rightarrow> length r),
      ent = (\<lambda>i j. rs ! i ! j)\<rparr>"



definition eye :: "nat \<Rightarrow> mat" where
  "eye m = \<lparr>nrows = m, ncols = m, ent = (\<lambda>i j. if i = j then 1 else 0)\<rparr>"

definition zeros :: "nat \<Rightarrow> nat \<Rightarrow> mat" where
  "zeros m n = \<lparr>nrows = m, ncols = n, ent = (\<lambda>i j. 0)\<rparr>"

definition triu :: "mat \<Rightarrow> mat" where
  "triu A = A\<lparr>ent := (\<lambda>i j. if i \<le> j then ent A i j else 0)\<rparr>"

definition matmul :: "mat \<Rightarrow> mat \<Rightarrow> mat" where
  "matmul A B =
     \<lparr>nrows = nrows A, ncols = ncols B,
      ent = (\<lambda>i j. \<Sum>k<ncols A. ent A i k * ent B k j)\<rparr>"

definition matvec :: "mat \<Rightarrow> vec \<Rightarrow> vec" where
  "matvec A v = map (\<lambda>i. \<Sum>k<ncols A. ent A i k * v ! k) [0..<nrows A]"

definition vecmat :: "vec \<Rightarrow> mat \<Rightarrow> vec" where
  "vecmat w A = map (\<lambda>j. \<Sum>k<nrows A. w ! k * ent A k j) [0..<ncols A]"

definition outer :: "vec \<Rightarrow> vec \<Rightarrow> mat" where
  "outer u w = \<lparr>nrows = length u, ncols = length w, ent = (\<lambda>i j. u ! i * w ! j)\<rparr>"

definition msub :: "mat \<Rightarrow> mat \<Rightarrow> mat" where
  "msub A B = A\<lparr>ent := (\<lambda>i j. ent A i j - ent B i j)\<rparr>"

definition vscale :: "complex \<Rightarrow> vec \<Rightarrow> vec" where
  "vscale a v = map (\<lambda>z. a * z) v"

definition smult :: "complex \<Rightarrow> mat \<Rightarrow> mat" where
  "smult a A = A\<lparr>ent := (\<lambda>i j. a * ent A i j)\<rparr>"

text \<open>\<open>A[r0:r1, c0:c1]\<close>; a bound beyond the shape is clipped to it.\<close>

definition slice :: "mat \<Rightarrow> nat \<Rightarrow> nat \<Rightarrow> nat \<Rightarrow> nat \<Rightarrow> mat" where
  "slice A r0 r1 c0 c1 =
     \<lparr>nrows = min r1 (nrows A) - r0, ncols = min c1 (ncols A) - c0,
      ent = (\<lambda>i k. ent A (r0 + i) (c0 + k))\<rparr>"

text \<open>\<open>A[r0:, c0:]\<close>\<close>

definition trailing :: "mat \<Rightarrow> nat \<Rightarrow> nat \<Rightarrow> mat" where
  "trailing A r0 c0 = slice A r0 (nrows A) c0 (ncols A)"

text \<open>\<open>A[r0:, c]\<close>, a one-dimensional array\<close>

definition col_from :: "mat \<Rightarrow> nat \<Rightarrow> nat \<Rightarrow> vec" where
  "col_from A r0 c = map (\<lambda>i. ent A i c) [r0..<nrows A]"

text \<open>\<open>index_update(A, index[r0:, c0:], X)\<close>\<close>

definition update_trailing :: "mat \<Rightarrow> nat \<Rightarrow> nat \<Rightarrow> mat \<Rightarrow> mat" where
  "update_trailing A r0 c0 X =
     A\<lparr>ent := (\<lambda>i k. if r0 \<le> i \<and> c0 \<le> k then ent X (i - r0) (k - c0) else ent A i k)\<rparr>"

text \<open>\<open>index_update(A, index[r0:, c], v)\<close>\<close>

definition update_col_from :: "mat \<Rightarrow> nat \<Rightarrow> nat \<Rightarrow> vec \<Rightarrow> mat" where
  "update_col_from A r0 c v =
     A\<lparr>ent := (\<lambda>i k. if r0 \<le> i \<and> k = c then v ! (i - r0) else ent A i k)\<rparr>"

text \<open>
  Modelled from the spec: \<open>dag\<close> of the module \<open>dfact.matutils\<close>, which is not among the
  sources. The spec writes it \<open>A\<^sup>H\<close>, the conjugate transpose; on a one-dimensional array
  (\<open>v*\<close> in the spec) it is the entrywise conjugate.
\<close>

definition dag :: "mat \<Rightarrow> mat" where
  "dag A = \<lparr>nrows = ncols A, ncols = nrows A, ent = (\<lambda>i j. cnj (ent A j i))\<rparr>"

definition vdag :: "vec \<Rightarrow> vec" where
  "vdag v = map cnj v"

subsection \<open>Manipulation of Householder vectors\<close>

definition form_dense_P :: "vec \<times> real \<Rightarrow> mat" where
  "form_dense_P hlist =
     (case hlist of (v, beta) \<Rightarrow>
        let Id = eye (length v);
            P = msub Id (smult (complex_of_real beta) (outer v (vdag v)))
        in P)"

definition house_leftmult :: "mat \<Rightarrow> vec \<Rightarrow> real \<Rightarrow> mat" where
  "house_leftmult A v beta =
     (let C = msub A (outer (vscale (complex_of_real beta) v) (vecmat (vdag v) A)) in C)"

definition house_rightmult :: "mat \<Rightarrow> vec \<Rightarrow> real \<Rightarrow> mat" where
  "house_rightmult A v beta =
     (let C = msub A (outer (matvec A v) (vscale (complex_of_real beta) (vdag v))) in C)"

subsection \<open>Manipulation of the factored QR representation\<close>

text \<open>A loop body that may fail, run over the list of its indices.\<close>

fun for_loop :: "('i \<Rightarrow> 's \<Rightarrow> error + 's) \<Rightarrow> 'i list \<Rightarrow> 's \<Rightarrow> error + 's" where
  "for_loop body [] s = Inr s"
| "for_loop body (i # is) s =
     (case body i s of Inl e \<Rightarrow> Inl e | Inr s' \<Rightarrow> for_loop body is s')"

definition factored_to_QR_step :: "mat \<Rightarrow> real list \<Rightarrow> nat \<Rightarrow> mat \<Rightarrow> mat" where
  "factored_to_QR_step h beta j Q =
     (let v = [1] @ col_from h (j + 1) j
      in update_trailing Q j j (house_leftmult (trailing Q j j) v (beta ! j)))"

definition factored_to_QR :: "mat \<Rightarrow> real list \<Rightarrow> mat \<times> mat" where
  "factored_to_QR h beta =
     (let m = nrows h; n = ncols h;
          R = triu h;
          Q = eye m;
          Q = fold (factored_to_QR_step h beta) (rev [0..<n]) Q
      in (Q, R))"

subsection \<open>Manipulation of the WY QR representation\<close>

definition factored_to_WY_step ::
    "mat \<Rightarrow> real list \<Rightarrow> nat \<Rightarrow> mat \<times> mat \<times> vec \<Rightarrow> mat \<times> mat \<times> vec" where
  "factored_to_WY_step H betas j st =
     (case st of (W, Y, vj) \<Rightarrow>
        let vj = take (j + 1) vj @ col_from H (j + 1) j;
            vj = vj[j := 1];
            YHv = matvec (dag (slice Y j (nrows Y) 0 j)) (drop j vj);
            z = matvec (slice W 0 (nrows W) 0 j) YHv;
            z = take j z @ map2 (+) (drop j z) (map uminus (drop j vj));
            z = map (\<lambda>c. - complex_of_real (betas ! j) * c) z;
            W = update_col_from W 0 j z;
            Y = update_col_from Y j j (drop j vj)
        in (W, Y, vj))"

text \<open>The arrays \<open>W\<close>, \<open>Y\<close> and \<open>vj\<close> on entry to the loop.\<close>

definition factored_to_WY_init :: "mat \<Rightarrow> real list \<Rightarrow> mat \<times> mat \<times> vec" where
  "factored_to_WY_init H betas =
     (let m = nrows H; n = ncols H;
          W = zeros m n;
          vj = [1] @ col_from H 1 0;
          W = update_col_from W 0 0 (vscale (complex_of_real (betas ! 0)) vj);
          Y = zeros m n;
          Y = update_col_from Y 0 0 vj
      in (W, Y, vj))"

text \<open>
  The arrays on entry to the iteration \<open>j = k\<close> of the loop; with \<open>k = n\<close>, on exit
  from the loop.
\<close>

definition factored_to_WY_state :: "mat \<Rightarrow> real list \<Rightarrow> nat \<Rightarrow> mat \<times> mat \<times> vec" where
  "factored_to_WY_state H betas k =
     fold (factored_to_WY_step H betas) [1..<k] (factored_to_WY_init H betas)"

text \<open>
  Column 0 of \<open>H\<close> and \<open>betas[0]\<close> are read before the loop: an array without columns
  or an empty \<open>betas\<close> has no index 0.
\<close>

definition factored_to_WY :: "mat \<times> real list \<Rightarrow> error + mat \<times> mat" where
  "factored_to_WY hbetalist =
     (case hbetalist of (H, betas) \<Rightarrow>
        let m = nrows H; n = ncols H
        in if n = 0 \<or> betas = [] then Inl IndexError
           else
             let (W, Y, vj) = factored_to_WY_state H betas n;
                 YH = dag Y
             in Inr (W, YH))"


definition Qdag_WY_times_B :: "mat \<Rightarrow> mat \<Rightarrow> mat \<Rightarrow> mat" where
  "Qdag_WY_times_B B W YH = (let C = msub B (matmul (dag YH) (matmul (dag W) B)) in C)"


subsection \<open>QR decomposition\<close>

text \<open>
  \<open>matshape\<close> of \<open>dfact.matutils\<close>, which is not among the sources, is read as the shape
  \<open>(M, N)\<close> of its argument, as the names it is bound to say.
\<close>

definition house_qr_factored_step :: "nat \<Rightarrow> mat \<times> real list \<Rightarrow> error + mat \<times> real list" where
  "house_qr_factored_step j st =
     (case st of (H, beta) \<Rightarrow>
        (case house (col_from H j j) of
           Inl e \<Rightarrow> Inl e
         | Inr (v, thisbeta) \<Rightarrow>
             let beta = beta @ [thisbeta];
                 H = update_trailing H j j (house_leftmult (trailing H j j) v thisbeta);
                 H = (if j < nrows H then update_col_from H (j + 1) j (drop 1 v) else H)
             in Inr (H, beta)))"

definition house_qr_factored :: "mat \<Rightarrow> error + mat \<times> real list" where
  "house_qr_factored A = for_loop house_qr_factored_step [0..<ncols A] (A, [])"

text \<open>
  The modes \<open>reduced\<close>, \<open>complete\<close> and \<open>r\<close> pass to the dense QR of the array library,
  which is not part of this module: it is the parameter \<open>linalg_qr\<close>.
\<close>

datatype 'd qr_output =
    Delegated 'd
  | Factored mat "real list"
  | WY mat mat mat

definition house_qr ::
    "(mat \<Rightarrow> string \<Rightarrow> error + 'd) \<Rightarrow> mat \<Rightarrow> string \<Rightarrow> error + 'd qr_output" where
  "house_qr linalg_qr A mode =
     (if mode = ''reduced'' \<or> mode = ''complete'' \<or> mode = ''r'' then
        (case linalg_qr A mode of Inl e \<Rightarrow> Inl e | Inr d \<Rightarrow> Inr (Delegated d))
      else
        let m = nrows A; n = ncols A
        in if n > m then
             Inl (NotImplementedError ''n > m QR not implemented in factoredor WY mode.'')
           else if mode = ''factored'' then
             (case house_qr_factored A of
                Inl e \<Rightarrow> Inl e
              | Inr (H, beta) \<Rightarrow> Inr (Factored H beta))
           else if mode = ''WY'' then
             (case house_qr_factored A of
                Inl e \<Rightarrow> Inl e
              | Inr hbetalist \<Rightarrow>
                  let R = triu (fst hbetalist)
                  in (case factored_to_WY hbetalist of
                        Inl e \<Rightarrow> Inl e
                      | Inr (W, YH) \<Rightarrow> Inr (WY W YH R)))
           else Inl (ValueError ''Invalid mode: '' (StrArg mode)))"

subsection \<open>Recursive blocked QR\<close>

definition hstack :: "mat \<Rightarrow> mat \<Rightarrow> mat" where
  "hstack A B =
     \<lparr>nrows = nrows A, ncols = ncols A + ncols B,
      ent = (\<lambda>i j. if j < ncols A then ent A i j else ent B i (j - ncols A))\<rparr>"

definition vstack :: "mat \<Rightarrow> mat \<Rightarrow> mat" where
  "vstack A B =
     \<lparr>nrows = nrows A + nrows B, ncols = ncols A,
      ent = (\<lambda>i j. if i < nrows A then ent A i j else ent B (i - nrows A) j)\<rparr>"

text \<open>
  The base case calls the dense QR of the array library in mode \<open>reduced\<close>; it is the
  parameter \<open>qr_reduced\<close>, which may fail (the library may not support complex input).
\<close>

function recursiveQR ::
    "(mat \<Rightarrow> error + mat \<times> mat) \<Rightarrow> mat \<Rightarrow> int \<Rightarrow> error + mat \<times> mat" where
  "recursiveQR qr_reduced A n_block =
     (if n_block < 1 then
        Inl (ValueError ''n_block must be greater than 0; it was '' (IntArg n_block))
      else
        let m = nrows A; n = ncols A
        in if int n \<le> n_block then qr_reduced A
           else
             let n0 = n div 2
             in (case recursiveQR qr_reduced (slice A 0 m 0 n0) n_block of
                   Inl e \<Rightarrow> Inl e
                 | Inr (Q0, R00) \<Rightarrow>
                     let R01 = matmul (dag Q0) (slice A 0 m n0 n);
                         A1 = update_trailing A 0 n0 (msub (slice A 0 m n0 n) (matmul Q0 R01));
                         R0 = hstack R00 R01
                     in (case recursiveQR qr_reduced (slice A1 0 m n0 n) n_block of
                           Inl e \<Rightarrow> Inl e
                         | Inr (Q1, R11) \<Rightarrow>
                             let Q = hstack Q0 Q1;
                                 R10 = zeros (nrows R11) (ncols R00);
                                 R1 = hstack R10 R11;
                                 R = vstack R0 R1
                             in Inr (Q, R))))"
  by pat_completeness auto
termination
  by (relation "measure (\<lambda>(qr_reduced, A, n_block). ncols A)")
     (auto simp: slice_def update_trailing_def)

subsection \<open>Block power SVD\<close>

definition diag :: "mat \<Rightarrow> vec" where
  "diag A = map (\<lambda>i. ent A i i) [0..<min (nrows A) (ncols A)]"

text \<open>\<open>U * Sigma\<close>: the one-dimensional array is broadcast along the rows.\<close>

definition times_row :: "mat \<Rightarrow> vec \<Rightarrow> mat" where
  "times_row U Sigma' = U\<lparr>ent := (\<lambda>i j. ent U i j * Sigma' ! j)\<rparr>"

definition mabs :: "mat \<Rightarrow> mat" where
  "mabs A = A\<lparr>ent := (\<lambda>i j. complex_of_real (cmod (ent A i j)))\<rparr>"

definition mat_norm :: "mat \<Rightarrow> real" where
  "mat_norm A = sqrt (\<Sum>i<nrows A. \<Sum>j<ncols A. (cmod (ent A i j))\<^sup>2)"

definition block_svd_iteration ::
    "(mat \<Rightarrow> error + mat \<times> mat) \<Rightarrow> mat \<Rightarrow> mat \<Rightarrow> nat \<Rightarrow> error + mat \<times> vec \<times> mat \<times> real" where
  "block_svd_iteration qr_reduced A V s =
     (case qr_reduced (matmul A V) of
        Inl e \<Rightarrow> Inl e
      | Inr (Ql, Rl) \<Rightarrow>
          let U = slice Ql 0 (nrows Ql) 0 s
          in (case qr_reduced (matmul (dag A) U) of
                Inl e \<Rightarrow> Inl e
              | Inr (Qr, Rr) \<Rightarrow>
                  let Sigma' = diag (slice Rr 0 s 0 s);
                      V = slice Qr 0 (nrows Qr) 0 s;
                      err_l = matmul A V;
                      err_r = times_row U Sigma';
                      err = mat_norm (mabs (msub err_l err_r))
                  in Inr (U, Sigma', V, err)))"

text \<open>What \<open>print\<close> writes: the warning and the error it reports.\<close>

datatype diagnostic = MaxIterWarning real

text \<open>
  The \<open>while not done\<close> loop. \<open>done\<close> is false on entry, so an unfolding of the function
  is one run of the body followed by the test.
\<close>

function svd_loop ::
    "(mat \<Rightarrow> error + mat \<times> vec \<times> mat \<times> real) \<Rightarrow> real \<Rightarrow> int \<Rightarrow> int \<Rightarrow> mat \<Rightarrow> diagnostic list
       \<Rightarrow> error + (mat \<times> vec \<times> mat) \<times> diagnostic list" where
  "svd_loop iteration tol max_iter n_iter V out =
     (let n_iter = n_iter + 1
      in (case iteration V of
            Inl e \<Rightarrow> Inl e
          | Inr (U, Sigma', V, err) \<Rightarrow>
              let done = (err \<le> tol \<or> n_iter \<ge> max_iter);
                  out = (if n_iter \<ge> max_iter then out @ [MaxIterWarning err] else out)
              in if \<not> done then svd_loop iteration tol max_iter n_iter V out
                 else Inr ((U, Sigma', V), out)))"
  by pat_completeness auto
termination
  by (relation "measure (\<lambda>(iteration, tol, max_iter, n_iter, V, out). nat (max_iter - n_iter))")
     auto

text \<open>
  The truncation rank \<open>s\<close> defaults to \<open>None\<close>; comparing \<open>None\<close> with an integer raises
  \<open>TypeError\<close>. The random start is made by \<open>gaussian_random_fill\<close> of \<open>dfact.matutils\<close>,
  which is not among the sources and is a parameter here.
\<close>

definition block_power_svd ::
    "(mat \<Rightarrow> error + mat \<times> mat) \<Rightarrow> (mat \<Rightarrow> mat) \<Rightarrow> mat \<Rightarrow> int option \<Rightarrow> real \<Rightarrow> int
       \<Rightarrow> error + (mat \<times> vec \<times> mat) \<times> diagnostic list" where
  "block_power_svd qr_reduced gaussian_random_fill A s tol max_iter =
     (let m = nrows A; n = ncols A
      in (case s of
            None \<Rightarrow> Inl TypeError
          | Some s \<Rightarrow>
              if s < 0 \<or> s \<ge> int n then
                Inl (ValueError
                  ''s must be a smaller natural number than the columns of A; it was ''
                  (IntArg s))
              else
                let V = gaussian_random_fill (zeros n (nat s));
                    n_iter = 0
                in svd_loop (\<lambda>V. block_svd_iteration qr_reduced A V (nat s))
                     tol max_iter n_iter V []))"

subsection \<open>Notions used to state the properties\<close>

text \<open>The factored QR of a matrix converted to dense form.\<close>

definition dense_of_factored :: "mat \<Rightarrow> error + mat \<times> mat" where
  "dense_of_factored A =
     (case house_qr_factored A of
        Inl e \<Rightarrow> Inl e
      | Inr (h, beta) \<Rightarrow> Inr (factored_to_QR h beta))"




text \<open>
  The result of the \<open>k+1\<close>-th run of the body of the loop of \<open>block_power_svd\<close>, and
  the test that ends the loop after the run numbered \<open>n_iter\<close>.
\<close>

fun svd_iterate ::
    "(mat \<Rightarrow> error + mat \<times> vec \<times> mat \<times> real) \<Rightarrow> mat \<Rightarrow> nat \<Rightarrow> error + mat \<times> vec \<times> mat \<times> real" where
  "svd_iterate iteration V 0 = iteration V"
| "svd_iterate iteration V (Suc k) =
     (case svd_iterate iteration V k of
        Inl e \<Rightarrow> Inl e
      | Inr (U, Sigma', V', err) \<Rightarrow> iteration V')"

definition stops :: "real \<Rightarrow> int \<Rightarrow> int \<Rightarrow> real \<Rightarrow> bool" where
  "stops tol max_iter n_iter err \<longleftrightarrow> err \<le> tol \<or> n_iter \<ge> max_iter"

text \<open>
  The \<open>j\<close>-th Householder vector of the factored representation, padded: zero above
  position \<open>j\<close>, one at position \<open>j\<close>, the entries of column \<open>j\<close> of \<open>H\<close> below.
\<close>

definition hvec :: "mat \<Rightarrow> nat \<Rightarrow> nat \<Rightarrow> complex" where
  "hvec H j i = (if i < j then 0 else if i = j then 1 else ent H i j)"

text \<open>
  Entries of the identity, and of the products \<open>P X\<close> and \<open>X P\<close> of an array of \<open>m\<close>
  rows and columns with the reflector \<open>P = I - b u u\<^sup>H\<close>.
\<close>

definition ident :: "nat \<Rightarrow> nat \<Rightarrow> complex" where
  "ident r c = (if r = c then 1 else 0)"

definition reflect_left ::
    "nat \<Rightarrow> (nat \<Rightarrow> complex) \<Rightarrow> real \<Rightarrow> (nat \<Rightarrow> nat \<Rightarrow> complex) \<Rightarrow> nat \<Rightarrow> nat \<Rightarrow> complex" where
  "reflect_left m u b X = (\<lambda>r c. X r c - complex_of_real b * u r * (\<Sum>i<m. cnj (u i) * X i c))"

definition reflect_right ::
    "nat \<Rightarrow> (nat \<Rightarrow> complex) \<Rightarrow> real \<Rightarrow> (nat \<Rightarrow> nat \<Rightarrow> complex) \<Rightarrow> nat \<Rightarrow> nat \<Rightarrow> complex" where
  "reflect_right m u b X = (\<lambda>r c. X r c - complex_of_real b * (\<Sum>i<m. X r i * u i) * cnj (u c))"

text \<open>Equal entries inside the shape \<open>m\<close> by \<open>m\<close>.\<close>

definition agree :: "nat \<Rightarrow> (nat \<Rightarrow> nat \<Rightarrow> complex) \<Rightarrow> (nat \<Rightarrow> nat \<Rightarrow> complex) \<Rightarrow> bool" where
  "agree m X Y \<longleftrightarrow> (\<forall>r<m. \<forall>c<m. X r c = Y r c)"

text \<open>Multiplication with the \<open>j\<close>-th reflector of a factored representation.\<close>

definition left_step :: "nat \<Rightarrow> mat \<Rightarrow> real list \<Rightarrow> nat \<Rightarrow> (nat \<Rightarrow> nat \<Rightarrow> complex) \<Rightarrow> nat \<Rightarrow> nat \<Rightarrow> complex" where
  "left_step m H betas j = reflect_left m (hvec H j) (betas ! j)"

definition right_step :: "nat \<Rightarrow> mat \<Rightarrow> real list \<Rightarrow> nat \<Rightarrow> (nat \<Rightarrow> nat \<Rightarrow> complex) \<Rightarrow> nat \<Rightarrow> nat \<Rightarrow> complex" where
  "right_step m H betas j = reflect_right m (hvec H j) (betas ! j)"

text \<open>
  The entries of \<open>I - W[:, :k] Y[:, :k]\<^sup>H\<close>, and what holds of the arrays of
  \<open>factored_to_WY\<close> on entry to the iteration \<open>j = k\<close>.
\<close>

definition wy_product :: "mat \<Rightarrow> mat \<Rightarrow> nat \<Rightarrow> nat \<Rightarrow> nat \<Rightarrow> complex" where
  "wy_product W Y k r c = ident r c - (\<Sum>q<k. ent W r q * cnj (ent Y c q))"

definition wy_invariant ::
    "nat \<Rightarrow> nat \<Rightarrow> mat \<Rightarrow> real list \<Rightarrow> nat \<Rightarrow> mat \<times> mat \<times> vec \<Rightarrow> bool" where
  "wy_invariant m n H betas k st \<longleftrightarrow>
     (case st of (W, Y, vj) \<Rightarrow>
        nrows W = m \<and> ncols W = n \<and> nrows Y = m \<and> ncols Y = n \<and> length vj = m
      \<and> (\<forall>r<m. \<forall>c\<ge>k. ent W r c = 0)
      \<and> (\<forall>r<m. \<forall>c\<ge>k. ent Y r c = 0)
      \<and> (\<forall>r<m. \<forall>c<k. ent Y r c = hvec H c r)
      \<and> agree m (wy_product W Y k) (fold (right_step m H betas) [0..<k] ident))"

text \<open>
  The column the specification gives for \<open>W[:, j]\<close>, in its words:
  \<open>z = -beta_j (v_j - W[:, :j] (Y[:, :j]* v_j))\<close>.
\<close>

text \<open>
  The pivot \<open>v_1 = x[0] + sign(x[0]) ||x||\<close> that \<open>house\<close> divides by when the tail of \<open>x\<close> is
  not zero.
\<close>

definition pivot :: "vec \<Rightarrow> complex" where
  "pivot x = hd x + sign (hd x) * complex_of_real (linalg_norm x)"

definition spec_z :: "mat \<Rightarrow> mat \<Rightarrow> mat \<Rightarrow> real list \<Rightarrow> nat \<Rightarrow> nat \<Rightarrow> complex" where
  "spec_z H W Y betas j r =
     - complex_of_real (betas ! j) *
         (hvec H j r - (\<Sum>q<j. ent W r q * (\<Sum>i<nrows H. cnj (ent Y i q) * hvec H j i)))"

text \<open>Equal entries inside the shape \<open>m\<close> by \<open>n\<close>.\<close>

definition agree_on :: "nat \<Rightarrow> nat \<Rightarrow> (nat \<Rightarrow> nat \<Rightarrow> complex) \<Rightarrow> (nat \<Rightarrow> nat \<Rightarrow> complex) \<Rightarrow> bool" where
  "agree_on m n X Y \<longleftrightarrow> (\<forall>r<m. \<forall>c<n. X r c = Y r c)"

text \<open>
  Entries of the product \<open>X Y\<close> and of the Gram matrix \<open>X\<^sup>H X\<close> of arrays with \<open>m\<close> rows.
\<close>

definition mm :: "nat \<Rightarrow> (nat \<Rightarrow> nat \<Rightarrow> complex) \<Rightarrow> (nat \<Rightarrow> nat \<Rightarrow> complex) \<Rightarrow> nat \<Rightarrow> nat \<Rightarrow> complex" where
  "mm m X Y = (\<lambda>r c. \<Sum>k<m. X r k * Y k c)"

definition gram :: "nat \<Rightarrow> (nat \<Rightarrow> nat \<Rightarrow> complex) \<Rightarrow> nat \<Rightarrow> nat \<Rightarrow> complex" where
  "gram m X = (\<lambda>r c. \<Sum>k<m. cnj (X k r) * X k c)"

text \<open>
  The scale of a reflector that is unitary: \<open>b = 0\<close> (the identity) or \<open>b = 2 / (u\<^sup>H u)\<close>.
\<close>

definition unit_reflector :: "nat \<Rightarrow> (nat \<Rightarrow> complex) \<Rightarrow> real \<Rightarrow> bool" where
  "unit_reflector m u b \<longleftrightarrow> b = 0 \<or> complex_of_real b * (\<Sum>i<m. cnj (u i) * u i) = 2"

text \<open>
  What holds of \<open>(H, betas)\<close> on entry to the iteration \<open>j = k\<close> of the factored QR of \<open>A\<close>:
  above the diagonal and from column \<open>k\<close> on, \<open>H\<close> holds the product of the first \<open>k\<close>
  reflectors with \<open>A\<close>; that product is zero below the diagonal in its first \<open>k\<close>
  columns; and the reflectors are unitary.
\<close>

definition qr_invariant :: "mat \<Rightarrow> nat \<Rightarrow> mat \<times> real list \<Rightarrow> bool" where
  "qr_invariant A k st \<longleftrightarrow>
     (case st of (H, betas) \<Rightarrow>
        nrows H = nrows A \<and> ncols H = ncols A \<and> length betas = k
      \<and> (\<forall>r<nrows A. \<forall>c<ncols A. k \<le> c \<or> r \<le> c \<longrightarrow>
            ent H r c = fold (left_step (nrows A) H betas) [0..<k] (ent A) r c)
      \<and> (\<forall>r<nrows A. \<forall>c<k. c < r \<longrightarrow>
            fold (left_step (nrows A) H betas) [0..<k] (ent A) r c = 0)
      \<and> (\<forall>j<k. unit_reflector (nrows A) (hvec H j) (betas ! j)))"

declare recursiveQR.simps [simp del]

declare svd_loop.simps [simp del]

section \<open>Properties\<close>

lemma linalg_norm_eq_0_iff: "linalg_norm xs = 0 \<longleftrightarrow> (\<forall>z\<in>set xs. z = 0)"
proof -
  have nonneg: "\<And>ys::complex list. 0 \<le> (\<Sum>z\<leftarrow>ys. (cmod z)\<^sup>2)"
    by (rule sum_list_nonneg) auto
  have "(\<Sum>z\<leftarrow>xs. (cmod z)\<^sup>2) = 0 \<longleftrightarrow> (\<forall>z\<in>set xs. z = 0)"
  proof (induction xs)
    case Nil
    show ?case by simp
  next
    case (Cons a xs)
    have "(cmod a)\<^sup>2 + (\<Sum>z\<leftarrow>xs. (cmod z)\<^sup>2) = 0
            \<longleftrightarrow> (cmod a)\<^sup>2 = 0 \<and> (\<Sum>z\<leftarrow>xs. (cmod z)\<^sup>2) = 0"
      using nonneg [of xs] by (simp add: add_nonneg_eq_0_iff)
    with Cons show ?case by simp
  qed
  then show ?thesis by (simp add: linalg_norm_def)
qed

text \<open>
  C3 (failing input). The vector \<open>(0, 1)\<close> has a non-zero tail, so \<open>house\<close> takes the
  branch \<open>house_nonzero_norm\<close>; there \<open>sign 0 = 0\<close> makes \<open>rho = 0\<close>, both candidate
  pivots are \<open>0\<close>, and the tail is divided by \<open>v_1 = 0\<close>. The lemma \<open>house_fails_iff\<close>
  below shows that these are the only vectors on which \<open>house\<close> divides by zero: a zero
  head before a non-zero tail. On the zero vector it returns \<open>beta = 0\<close>
  (\<open>house_zero_tail\<close>).
\<close>

theorem house_zero_head_divides_by_zero: "house [0, 1] = Inl NonFinite"
  by (simp add: house_def house_nonzero_norm_def linalg_norm_def sign_def fdiv_def)

text \<open>
  C2 (failing input). At \<open>x = (0, 3, 4)\<close> no reflector is returned: the division by
  the pivot \<open>v_1 = 0\<close> leaves no finite \<open>v\<close>, so there is nothing whose application to
  \<open>x\<close> could zero the tail and keep the norm. Wherever \<open>house\<close> does return, its result
  has the three properties (\<open>house_reflects\<close> below).
\<close>

theorem house_no_reflector_at_zero_head: "house [0, 3, 4] = Inl NonFinite"
  by (simp add: house_def house_nonzero_norm_def linalg_norm_def sign_def fdiv_def)

text \<open>
  C1 (failing input). The 2-by-1 matrix with column \<open>(0, 1)\<close> has \<open>M \<ge> N\<close>; its first
  column goes to \<open>house\<close>, which divides by zero, so the factored QR has no finite
  result and its conversion yields no \<open>Q\<close> and \<open>R\<close> with \<open>Q R = A\<close>. Wherever the factored
  QR does return, the conversion has the three properties (\<open>house_qr_factored_correct\<close>
  below).
\<close>

theorem house_qr_factored_fails_at_zero_pivot:
  "dense_of_factored (mat_of_rows [[0], [1]]) = Inl NonFinite"
  by (simp add: dense_of_factored_def house_qr_factored_def house_qr_factored_step_def
      mat_of_rows_def col_from_def house_def house_nonzero_norm_def linalg_norm_def sign_def
      fdiv_def upt_conv_Cons)

text \<open>
  C6. For a matrix with more columns than rows, the modes \<open>factored\<close> and \<open>WY\<close> fail
  with \<open>NotImplementedError\<close>; the test precedes the call of the factorization.
\<close>

theorem house_qr_wide_not_implemented:
  assumes "ncols A > nrows A" and "mode = ''factored'' \<or> mode = ''WY''"
  shows "house_qr linalg_qr A mode =
           Inl (NotImplementedError ''n > m QR not implemented in factoredor WY mode.'')"
  using assms by (auto simp: house_qr_def)

theorem house_qr_wide_not_implemented_witness:
  "ncols (mat_of_rows [[1, 2]]) > nrows (mat_of_rows [[1, 2]])
   \<and> house_qr (\<lambda>A mode. Inr ()) (mat_of_rows [[1, 2]]) ''WY'' =
         Inl (NotImplementedError ''n > m QR not implemented in factoredor WY mode.'')"
  using house_qr_wide_not_implemented [of "mat_of_rows [[1, 2]]" "''WY''" "\<lambda>A mode. Inr ()"]
  by (simp add: mat_of_rows_def)

text \<open>
  C10. Called without the truncation rank, \<open>block_power_svd\<close> fails with \<open>TypeError\<close>
  at the range check, whatever the matrix; no \<open>ValueError\<close> is built.
\<close>

theorem block_power_svd_default_s_type_error:
  "block_power_svd qr_reduced gaussian_random_fill A None tol max_iter = Inl TypeError"
  by (simp add: block_power_svd_def)

subsection \<open>Invalid arguments\<close>

text \<open>
  C9 (failing input). For the 1-by-2 matrix and the unrecognised mode \<open>bogus\<close> the error
  is not the \<open>ValueError\<close> that carries the mode: the test \<open>n > m\<close> stands before the
  dispatch on the mode, and the error is the \<open>NotImplementedError\<close> whose message speaks
  of the modes \<open>factored\<close> and \<open>WY\<close>. The same mode on a matrix with \<open>N \<le> M\<close> does
  end in the \<open>ValueError\<close>, as the other two invalid arguments do
  (\<open>invalid_arguments_fail_fast\<close> below).
\<close>

theorem house_qr_invalid_mode_wide:
  "house_qr (\<lambda>A mode. Inr ()) (mat_of_rows [[1, 2]]) ''bogus'' =
     Inl (NotImplementedError ''n > m QR not implemented in factoredor WY mode.'')"
  by (simp add: house_qr_def mat_of_rows_def)

text \<open>
  A block size below 1, a rank \<open>s\<close> outside \<open>[0, N)\<close> and, for a matrix with \<open>N \<le> M\<close>, an
  unrecognised mode each fail with \<open>ValueError\<close> carrying the offending value, whatever
  the collaborators are: nothing is computed before.
\<close>

lemma invalid_arguments_fail_fast:
  "(n_block < 1 \<longrightarrow>
      recursiveQR qr_reduced A n_block =
        Inl (ValueError ''n_block must be greater than 0; it was '' (IntArg n_block)))
   \<and> (s < 0 \<or> s \<ge> int (ncols A) \<longrightarrow>
      block_power_svd qr_reduced gaussian_random_fill A (Some s) tol max_iter =
        Inl (ValueError ''s must be a smaller natural number than the columns of A; it was ''
               (IntArg s)))
   \<and> (mode \<notin> {''reduced'', ''complete'', ''r'', ''factored'', ''WY''} \<and> ncols A \<le> nrows A \<longrightarrow>
      house_qr linalg_qr A mode = Inl (ValueError ''Invalid mode: '' (StrArg mode)))"
  by (auto simp: block_power_svd_def house_qr_def simp del: recursiveQR.simps
       simp add: recursiveQR.simps [of qr_reduced A n_block])

subsection \<open>The loop of the block power SVD\<close>

lemma svd_iterate_shift:
  "svd_iterate iteration V (Suc k) =
     (case iteration V of
        Inl e \<Rightarrow> Inl e
      | Inr (U, Sigma', V', err) \<Rightarrow> svd_iterate iteration V' k)"
  by (induction k) (auto split: sum.splits)

lemma svd_loop_runs:
  assumes ok: "\<And>V. \<exists>t. iteration V = Inr t"
  shows "\<exists>k U Sigma' V' err.
           svd_loop iteration tol max_iter n V out =
             Inr ((U, Sigma', V'),
                  out @ (if n + int (Suc k) \<ge> max_iter then [MaxIterWarning err] else []))
         \<and> svd_iterate iteration V k = Inr (U, Sigma', V', err)
         \<and> stops tol max_iter (n + int (Suc k)) err
         \<and> (\<forall>i<k. \<forall>U1 S1 V1 err1. svd_iterate iteration V i = Inr (U1, S1, V1, err1)
               \<longrightarrow> \<not> stops tol max_iter (n + int (Suc i)) err1)"
proof (induction "nat (max_iter - n)" arbitrary: n V out rule: less_induct)
  case less
  obtain U S V1 err where it: "iteration V = Inr (U, S, V1, err)"
    using ok [of V] by (metis prod_cases4)
  show ?case
  proof (cases "stops tol max_iter (n + 1) err")
    case True
    have "svd_loop iteration tol max_iter n V out =
            Inr ((U, S, V1), out @ (if n + 1 \<ge> max_iter then [MaxIterWarning err] else []))"
      using True it by (auto simp: svd_loop.simps [of iteration tol max_iter n V out] stops_def)
    then show ?thesis using True it
      by (intro exI [of _ 0] exI [of _ U] exI [of _ S] exI [of _ V1] exI [of _ err]) simp
  next
    case False
    then have lt: "n + 1 < max_iter" and gt: "\<not> err \<le> tol" by (auto simp: stops_def)
    have unfold: "svd_loop iteration tol max_iter n V out = svd_loop iteration tol max_iter (n + 1) V1 out"
      using lt gt it by (simp add: svd_loop.simps [of iteration tol max_iter n V out])
    have "nat (max_iter - (n + 1)) < nat (max_iter - n)" using lt by simp
    from less [OF this, of V1 out]
    obtain k U' S' V' err' where
      r: "svd_loop iteration tol max_iter (n + 1) V1 out =
             Inr ((U', S', V'),
                  out @ (if n + 1 + int (Suc k) \<ge> max_iter then [MaxIterWarning err'] else []))"
      and t: "svd_iterate iteration V1 k = Inr (U', S', V', err')"
      and s: "stops tol max_iter (n + 1 + int (Suc k)) err'"
      and e: "\<forall>i<k. \<forall>U1 S1 V2 err1. svd_iterate iteration V1 i = Inr (U1, S1, V2, err1)
               \<longrightarrow> \<not> stops tol max_iter (n + 1 + int (Suc i)) err1"
      by blast
    have t': "svd_iterate iteration V (Suc k) = Inr (U', S', V', err')"
      using t it by (simp add: svd_iterate_shift del: svd_iterate.simps)
    have e': "\<forall>i<Suc k. \<forall>U1 S1 V2 err1. svd_iterate iteration V i = Inr (U1, S1, V2, err1)
               \<longrightarrow> \<not> stops tol max_iter (n + int (Suc i)) err1"
    proof (intro allI impI)
      fix i U1 S1 V2 err1
      assume i: "i < Suc k" and h: "svd_iterate iteration V i = Inr (U1, S1, V2, err1)"
      show "\<not> stops tol max_iter (n + int (Suc i)) err1"
      proof (cases i)
        case 0
        then show ?thesis using h it False by simp
      next
        case (Suc i')
        then have "svd_iterate iteration V1 i' = Inr (U1, S1, V2, err1)"
          using h it by (simp add: svd_iterate_shift del: svd_iterate.simps)
        moreover have "i' < k" using i Suc by simp
        ultimately have "\<not> stops tol max_iter (n + 1 + int (Suc i')) err1" using e by blast
        then show ?thesis using Suc by (simp add: add.assoc)
      qed
    qed
    have a: "n + 1 + int (Suc k) = n + int (Suc (Suc k))" by simp
    show ?thesis
      using unfold r t' s e' unfolding a
      by (intro exI [of _ "Suc k"] exI [of _ U'] exI [of _ S'] exI [of _ V'] exI [of _ err']) simp
  qed
qed

lemma block_svd_iteration_ok:
  assumes "\<And>B. \<exists>Q R. qr_reduced B = Inr (Q, R)"
  shows "\<exists>t. block_svd_iteration qr_reduced A V s = Inr t"
proof -
  obtain Ql Rl where 1: "qr_reduced (matmul A V) = Inr (Ql, Rl)" using assms by blast
  obtain Qr Rr where 2: "qr_reduced (matmul (dag A) (slice Ql 0 (nrows Ql) 0 s)) = Inr (Qr, Rr)"
    using assms by blast
  show ?thesis using 1 2 by (simp add: block_svd_iteration_def Let_def)
qed

text \<open>
  C8. For a rank \<open>0 \<le> s < N\<close> and a dense QR that returns, \<open>block_power_svd\<close> returns
  the triple of the first run of the body, numbered \<open>k+1\<close>, whose error is at most
  \<open>tol\<close> or whose number has reached \<open>max_iter\<close>; no earlier run passes that test; and
  the warning is written exactly when \<open>k+1\<close> has reached \<open>max_iter\<close>. It never fails.
\<close>

theorem block_power_svd_stops:
  assumes qr: "\<And>B. \<exists>Q R. qr_reduced B = Inr (Q, R)"
    and s: "0 \<le> s" "s < int (ncols A)"
  shows "\<exists>k U Sigma' V err.
           block_power_svd qr_reduced gaussian_random_fill A (Some s) tol max_iter =
             Inr ((U, Sigma', V), if int (Suc k) \<ge> max_iter then [MaxIterWarning err] else [])
         \<and> svd_iterate (\<lambda>V. block_svd_iteration qr_reduced A V (nat s))
               (gaussian_random_fill (zeros (ncols A) (nat s))) k = Inr (U, Sigma', V, err)
         \<and> stops tol max_iter (int (Suc k)) err
         \<and> (\<forall>i<k. \<forall>U1 S1 V1 err1.
               svd_iterate (\<lambda>V. block_svd_iteration qr_reduced A V (nat s))
                 (gaussian_random_fill (zeros (ncols A) (nat s))) i = Inr (U1, S1, V1, err1)
               \<longrightarrow> \<not> stops tol max_iter (int (Suc i)) err1)"
proof -
  have ok: "\<And>V. \<exists>t. block_svd_iteration qr_reduced A V (nat s) = Inr t"
    by (rule block_svd_iteration_ok) (rule qr)
  have eq: "block_power_svd qr_reduced gaussian_random_fill A (Some s) tol max_iter =
          svd_loop (\<lambda>V. block_svd_iteration qr_reduced A V (nat s)) tol max_iter 0
            (gaussian_random_fill (zeros (ncols A) (nat s))) []"
    using s by (simp add: block_power_svd_def)
  show ?thesis
    unfolding eq
    using svd_loop_runs [of "\<lambda>V. block_svd_iteration qr_reduced A V (nat s)" tol max_iter 0
        "gaussian_random_fill (zeros (ncols A) (nat s))" "[]", OF ok]
    by simp
qed

theorem block_power_svd_stops_witness:
  "(\<forall>B. \<exists>Q R. (Inr (B, eye (ncols B)) :: error + mat \<times> mat) = Inr (Q, R))
   \<and> (0::int) \<le> 1 \<and> 1 < int (ncols (mat_of_rows [[1, 2]]))
   \<and> (\<exists>k U Sigma' V err.
         block_power_svd (\<lambda>B. Inr (B, eye (ncols B))) (\<lambda>V. V) (mat_of_rows [[1, 2]]) (Some 1) 0 1 =
           Inr ((U, Sigma', V), if int (Suc k) \<ge> 1 then [MaxIterWarning err] else [])
         \<and> stops 0 1 (int (Suc k)) err)"
proof -
  have q: "\<And>B. \<exists>Q R. (Inr (B, eye (ncols B)) :: error + mat \<times> mat) = Inr (Q, R)" by simp
  have s: "(0::int) \<le> 1" "1 < int (ncols (mat_of_rows [[1, 2]]))"
    by (simp_all add: mat_of_rows_def)
  show ?thesis
    using block_power_svd_stops [of "\<lambda>B. Inr (B, eye (ncols B))" 1 "mat_of_rows [[1, 2]]"
        "\<lambda>V. V" 0 1, OF q s] s
    by auto
qed

subsection \<open>Recursive blocked QR\<close>

lemma sum_lessThan_add:
  fixes f :: "nat \<Rightarrow> complex"
  shows "(\<Sum>k<a + b. f k) = (\<Sum>k<a. f k) + (\<Sum>k<b. f (a + k))"
  by (induction b) (simp_all add: add.assoc)






subsection \<open>The two routes from the factored representation to \<open>Q\<close>\<close>

lemma sum_drop_zero_prefix:
  fixes f :: "nat \<Rightarrow> complex"
  assumes "j \<le> m" and "\<And>i. i < j \<Longrightarrow> f i = 0"
  shows "(\<Sum>k<m - j. f (j + k)) = (\<Sum>i<m. f i)"
proof -
  have "(\<Sum>i<j + (m - j). f i) = (\<Sum>i<j. f i) + (\<Sum>k<m - j. f (j + k))"
    by (rule sum_lessThan_add)
  moreover have "(\<Sum>i<j. f i) = 0" using assms(2) by simp
  ultimately show ?thesis using assms(1) by simp
qed

lemma wy_vector_nth:
  assumes "j < m" and "length vj = m" and "nrows H = m" and "j \<le> i" and "i < m"
  shows "(take (j + 1) vj @ col_from H (j + 1) j)[j := 1] ! i = hvec H j i"
  using assms by (auto simp: hvec_def col_from_def nth_append nth_list_update)

lemma wy_vector_length:
  assumes "j < m" and "length vj = m" and "nrows H = m"
  shows "length ((take (j + 1) vj @ col_from H (j + 1) j)[j := 1]) = m"
  using assms by (auto simp: col_from_def)

lemma factored_to_WY_step_entries:
  assumes j: "j < m" and m: "nrows H = m" "nrows W = m" "nrows Y = m" "length vj = m"
    and n: "j \<le> ncols W" "j \<le> ncols Y"
    and step: "factored_to_WY_step H betas j (W, Y, vj) = (W', Y', vj')"
  shows "nrows W' = m" "ncols W' = ncols W" "nrows Y' = m" "ncols Y' = ncols Y" "length vj' = m"
    and "\<And>r c. r < m \<Longrightarrow> ent W' r c =
           (if c = j then
              complex_of_real (betas ! j) *
                (hvec H j r - (\<Sum>q<j. ent W r q * (\<Sum>i<m. cnj (ent Y i q) * hvec H j i)))
            else ent W r c)"
    and "\<And>r c. r < m \<Longrightarrow> ent Y' r c = (if j \<le> r \<and> c = j then hvec H j r else ent Y r c)"
proof -
  define v1 where "v1 = (take (j + 1) vj @ col_from H (j + 1) j)[j := 1]"
  have v1: "\<And>i. j \<le> i \<Longrightarrow> i < m \<Longrightarrow> v1 ! i = hvec H j i" and lv1: "length v1 = m"
    unfolding v1_def using wy_vector_nth [OF j m(4) m(1)] wy_vector_length [OF j m(4) m(1)]
    by auto
  define YHv where "YHv = matvec (dag (slice Y j (nrows Y) 0 j)) (drop j v1)"
  have lY: "length YHv = j" using n by (simp add: YHv_def matvec_def dag_def slice_def)
  have YHv: "YHv ! q = (\<Sum>i<m. cnj (ent Y i q) * hvec H j i)" if "q < j" for q
  proof -
    have "YHv ! q = (\<Sum>k<m - j. cnj (ent Y (j + k) q) * v1 ! (j + k))"
      using that n m lv1 j by (simp add: YHv_def matvec_def dag_def slice_def)
    also have "\<dots> = (\<Sum>k<m - j. cnj (ent Y (j + k) q) * hvec H j (j + k))"
      by (rule sum.cong) (auto simp: v1)
    also have "\<dots> = (\<Sum>i<m. cnj (ent Y i q) * hvec H j i)"
      using j by (intro sum_drop_zero_prefix) (auto simp: hvec_def)
    finally show ?thesis .
  qed
  define z0 where "z0 = matvec (slice W 0 (nrows W) 0 j) YHv"
  have lz0: "length z0 = m" using m by (simp add: z0_def matvec_def slice_def)
  have z0: "z0 ! r = (\<Sum>q<j. ent W r q * (\<Sum>i<m. cnj (ent Y i q) * hvec H j i))" if "r < m" for r
  proof -
    have "z0 ! r = (\<Sum>q<j. ent W r q * YHv ! q)"
      using that n m by (simp add: z0_def matvec_def slice_def)
    also have "\<dots> = (\<Sum>q<j. ent W r q * (\<Sum>i<m. cnj (ent Y i q) * hvec H j i))"
      by (rule sum.cong) (auto simp: YHv)
    finally show ?thesis .
  qed
  define z1 where "z1 = take j z0 @ map2 (+) (drop j z0) (map uminus (drop j v1))"
  have lz1: "length z1 = m" using lz0 lv1 j by (simp add: z1_def)
  have z1: "z1 ! r = z0 ! r - hvec H j r" if "r < m" for r
  proof (cases "r < j")
    case True
    then show ?thesis using lz0 j by (simp add: z1_def nth_append hvec_def)
  next
    case False
    then show ?thesis using lz0 lv1 j that v1 [of r]
      by (simp add: z1_def nth_append)
  qed
  define z where "z = map (\<lambda>c. - complex_of_real (betas ! j) * c) z1"
  have z: "z ! r = complex_of_real (betas ! j) * (hvec H j r - z0 ! r)" if "r < m" for r
  proof -
    have "z ! r = - complex_of_real (betas ! j) * (z0 ! r - hvec H j r)"
      using that lz1 z1 by (simp add: z_def)
    then show ?thesis by (simp add: algebra_simps)
  qed
  have res: "W' = update_col_from W 0 j z" "Y' = update_col_from Y j j (drop j v1)" "vj' = v1"
    using step
    by (auto simp: factored_to_WY_step_def Let_def v1_def YHv_def z0_def z1_def z_def)
  show "nrows W' = m" "ncols W' = ncols W" "nrows Y' = m" "ncols Y' = ncols Y" "length vj' = m"
    using m lv1 by (simp_all add: res update_col_from_def)
  show "ent W' r c =
           (if c = j then
              complex_of_real (betas ! j) *
                (hvec H j r - (\<Sum>q<j. ent W r q * (\<Sum>i<m. cnj (ent Y i q) * hvec H j i)))
            else ent W r c)" if "r < m" for r c
    using that z z0 by (simp add: res update_col_from_def)
  show "ent Y' r c = (if j \<le> r \<and> c = j then hvec H j r else ent Y r c)" if "r < m" for r c
    using that lv1 v1 by (simp add: res update_col_from_def)
qed


lemma reflect_left_agree:
  assumes "agree m X Y"
  shows "agree m (reflect_left m u b X) (reflect_left m u b Y)"
proof -
  have "(\<Sum>i<m. cnj (u i) * X i c) = (\<Sum>i<m. cnj (u i) * Y i c)" if "c < m" for c
    by (rule sum.cong) (use assms that in \<open>auto simp: agree_def\<close>)
  then show ?thesis using assms by (simp add: agree_def reflect_left_def)
qed

lemma reflect_right_agree:
  assumes "agree m X Y"
  shows "agree m (reflect_right m u b X) (reflect_right m u b Y)"
proof -
  have "(\<Sum>i<m. X r i * u i) = (\<Sum>i<m. Y r i * u i)" if "r < m" for r
    by (rule sum.cong) (use assms that in \<open>auto simp: agree_def\<close>)
  then show ?thesis using assms by (simp add: agree_def reflect_right_def)
qed

lemma sum_delta_left:
  fixes f :: "nat \<Rightarrow> complex"
  assumes "j < n"
  shows "(\<Sum>k<n. ident j k * f k) = f j"
proof -
  have "(\<Sum>k<n. ident j k * f k) = (\<Sum>k<n. if j = k then f k else 0)"
    by (rule sum.cong) (auto simp: ident_def)
  then show ?thesis using assms by simp
qed

lemma sum_delta_right:
  fixes f :: "nat \<Rightarrow> complex"
  assumes "j < n"
  shows "(\<Sum>k<n. f k * ident k j) = f j"
proof -
  have "(\<Sum>k<n. f k * ident k j) = (\<Sum>k<n. if k = j then f k else 0)"
    by (rule sum.cong) (auto simp: ident_def)
  then show ?thesis using assms by simp
qed



lemma agree_trans: "agree m X Y \<Longrightarrow> agree m Y Z \<Longrightarrow> agree m X Z"
  by (simp add: agree_def)

lemma agree_sym: "agree m X Y \<Longrightarrow> agree m Y X"
  by (simp add: agree_def)




lemma left_step_agree:
  "agree m X Y \<Longrightarrow> agree m (left_step m H betas j X) (left_step m H betas j Y)"
  unfolding left_step_def by (rule reflect_left_agree)

lemma right_step_agree:
  "agree m X Y \<Longrightarrow> agree m (right_step m H betas j X) (right_step m H betas j Y)"
  unfolding right_step_def by (rule reflect_right_agree)

lemma house_leftmult_entry:
  assumes "nrows A = length v" and "i < length v" and "k < ncols A"
  shows "ent (house_leftmult A v beta) i k =
           ent A i k - complex_of_real beta * v ! i * (\<Sum>l<length v. cnj (v ! l) * ent A l k)"
proof -
  have "(\<Sum>l<length v. map cnj v ! l * ent A l k) = (\<Sum>l<length v. cnj (v ! l) * ent A l k)"
    by (rule sum.cong) auto
  then show ?thesis
    using assms
    by (simp add: house_leftmult_def msub_def outer_def vscale_def vecmat_def vdag_def)
qed

lemma house_leftmult_shape:
  "nrows (house_leftmult A v beta) = nrows A" "ncols (house_leftmult A v beta) = ncols A"
  by (simp_all add: house_leftmult_def msub_def)

lemma householder_vector_nth:
  assumes "nrows h = m" and "j < m" and "i < m - j"
  shows "([1] @ col_from h (j + 1) j) ! i = hvec h j (j + i)"
  using assms by (auto simp: hvec_def col_from_def nth_Cons')

lemma householder_vector_length:
  assumes "nrows h = m" and "j < m"
  shows "length ([1] @ col_from h (j + 1) j) = m - j"
  using assms by (auto simp: col_from_def)

lemma factored_to_QR_step_entry:
  assumes m: "nrows h = m" "nrows Q = m" "ncols Q = m" and j: "j < m"
    and cols: "\<And>i c. c < j \<Longrightarrow> i < m \<Longrightarrow> ent Q i c = ident i c"
    and r: "r < m" and c: "c < m"
  shows "ent (factored_to_QR_step h beta j Q) r c = reflect_left m (hvec h j) (beta ! j) (ent Q) r c"
proof -
  define v where "v = [1] @ col_from h (j + 1) j"
  have v: "\<And>i. i < m - j \<Longrightarrow> v ! i = hvec h j (j + i)" and lv: "length v = m - j"
    unfolding v_def
    using householder_vector_nth [OF m(1) j] householder_vector_length [OF m(1) j] by auto
  define A where "A = trailing Q j j"
  have A: "nrows A = m - j" "ncols A = m - j" "\<And>i k. ent A i k = ent Q (j + i) (j + k)"
    using m by (simp_all add: A_def trailing_def slice_def)
  have step: "factored_to_QR_step h beta j Q = update_trailing Q j j (house_leftmult A v (beta ! j))"
    by (simp add: factored_to_QR_step_def v_def A_def)
  show ?thesis
  proof (cases "j \<le> r \<and> j \<le> c")
    case True
    then have rc: "r - j < m - j" "c - j < m - j" using r c by auto
    have "ent (factored_to_QR_step h beta j Q) r c = ent (house_leftmult A v (beta ! j)) (r - j) (c - j)"
      using True by (simp add: step update_trailing_def)
    also have "\<dots> = ent A (r - j) (c - j)
        - complex_of_real (beta ! j) * v ! (r - j) * (\<Sum>l<length v. cnj (v ! l) * ent A l (c - j))"
      using rc A lv by (intro house_leftmult_entry) auto
    also have "(\<Sum>l<length v. cnj (v ! l) * ent A l (c - j))
                 = (\<Sum>l<m - j. cnj (hvec h j (j + l)) * ent Q (j + l) c)"
      unfolding lv using True by (intro sum.cong) (auto simp: v A)
    also have "\<dots> = (\<Sum>i<m. cnj (hvec h j i) * ent Q i c)"
      using j by (intro sum_drop_zero_prefix) (auto simp: hvec_def)
    finally show ?thesis
      using True rc by (simp add: reflect_left_def v A)
  next
    case False
    have same: "ent (factored_to_QR_step h beta j Q) r c = ent Q r c"
      using False by (auto simp: step update_trailing_def)
    show ?thesis
    proof (cases "r < j")
      case True
      then show ?thesis by (simp add: same reflect_left_def hvec_def)
    next
      case rj: False
      then have cj: "c < j" using False by auto
      have "(\<Sum>i<m. cnj (hvec h j i) * ent Q i c) = (\<Sum>i<m. cnj (hvec h j i) * ident i c)"
        by (rule sum.cong) (auto simp: cols cj)
      also have "\<dots> = cnj (hvec h j c)" using c by (rule sum_delta_right)
      also have "\<dots> = 0" using cj by (simp add: hvec_def)
      finally show ?thesis by (simp add: same reflect_left_def)
    qed
  qed
qed

lemma factored_to_QR_step_keeps:
  assumes "c < j"
  shows "ent (factored_to_QR_step h beta j Q) i c = ent Q i c"
  using assms by (simp add: factored_to_QR_step_def update_trailing_def)

lemma factored_to_QR_step_shape:
  "nrows (factored_to_QR_step h beta j Q) = nrows Q"
  "ncols (factored_to_QR_step h beta j Q) = ncols Q"
  by (simp_all add: factored_to_QR_step_def update_trailing_def)

lemma factored_to_QR_fold:
  assumes m: "nrows h = m" and n: "n \<le> m"
  shows "k \<le> n \<Longrightarrow>
         nrows (foldr (factored_to_QR_step h beta) [k..<n] (eye m)) = m
       \<and> ncols (foldr (factored_to_QR_step h beta) [k..<n] (eye m)) = m
       \<and> (\<forall>c<k. \<forall>i<m. ent (foldr (factored_to_QR_step h beta) [k..<n] (eye m)) i c = ident i c)
       \<and> agree m (ent (foldr (factored_to_QR_step h beta) [k..<n] (eye m)))
                 (foldr (left_step m h beta) [k..<n] ident)"
proof (induction "n - k" arbitrary: k)
  case 0
  then have e: "[k..<n] = []" by simp
  show ?case unfolding e by (simp add: eye_def ident_def agree_def)
next
  case (Suc d)
  then have k: "k < n" and d: "d = n - Suc k" and k': "Suc k \<le> n" by auto
  define Q where "Q = foldr (factored_to_QR_step h beta) [Suc k..<n] (eye m)"
  have IH: "nrows Q = m" "ncols Q = m" "\<And>c i. c < Suc k \<Longrightarrow> i < m \<Longrightarrow> ent Q i c = ident i c"
    "agree m (ent Q) (foldr (left_step m h beta) [Suc k..<n] ident)"
    using Suc.hyps(1) [OF d k'] by (auto simp: Q_def)
  have unfold: "foldr (factored_to_QR_step h beta) [k..<n] (eye m) = factored_to_QR_step h beta k Q"
    "foldr (left_step m h beta) [k..<n] ident
       = left_step m h beta k (foldr (left_step m h beta) [Suc k..<n] ident)"
    using k by (simp_all add: upt_conv_Cons Q_def)
  have km: "k < m" using k n by simp
  have e: "ent (factored_to_QR_step h beta k Q) r c = left_step m h beta k (ent Q) r c"
    if "r < m" "c < m" for r c
    unfolding left_step_def
    using IH(3) by (intro factored_to_QR_step_entry [OF m IH(1,2) km _ that]) auto
  have "agree m (ent (factored_to_QR_step h beta k Q)) (left_step m h beta k (ent Q))"
    using e by (simp add: agree_def)
  moreover have "agree m (left_step m h beta k (ent Q))
          (left_step m h beta k (foldr (left_step m h beta) [Suc k..<n] ident))"
    by (rule left_step_agree) (rule IH(4))
  ultimately have "agree m (ent (factored_to_QR_step h beta k Q))
          (left_step m h beta k (foldr (left_step m h beta) [Suc k..<n] ident))"
    by (rule agree_trans)
  then show ?case
    unfolding unfold using IH(1,2,3)
    by (simp add: factored_to_QR_step_keeps factored_to_QR_step_shape)
qed

lemma factored_to_QR_entries:
  assumes "ncols h \<le> nrows h"
  shows "nrows (fst (factored_to_QR h beta)) = nrows h"
    and "ncols (fst (factored_to_QR h beta)) = nrows h"
    and "agree (nrows h) (ent (fst (factored_to_QR h beta)))
           (foldr (left_step (nrows h) h beta) [0..<ncols h] ident)"
  using factored_to_QR_fold [OF refl assms, of 0 beta]
  by (simp_all add: factored_to_QR_def Let_def foldr_conv_fold)

lemma wy_invariant_init:
  assumes m: "nrows H = m" "1 \<le> m" and n: "ncols H = n"
  shows "wy_invariant m n H betas 1
           (update_col_from (zeros m n) 0 0
              (vscale (complex_of_real (betas ! 0)) ([1] @ col_from H 1 0)),
            update_col_from (zeros m n) 0 0 ([1] @ col_from H 1 0),
            [1] @ col_from H 1 0)"
proof -
  define v where "v = [1] @ col_from H 1 0"
  have lv: "length v = m" using m by (simp add: v_def col_from_def)
  have v: "v ! i = hvec H 0 i" if "i < m" for i
    using that m by (auto simp: v_def hvec_def col_from_def nth_Cons')
  have prod: "wy_product (update_col_from (zeros m n) 0 0 (vscale (complex_of_real (betas ! 0)) v))
                (update_col_from (zeros m n) 0 0 v) 1 r c
              = right_step m H betas 0 ident r c" if "r < m" "c < m" for r c
    using that lv v
    by (simp add: wy_product_def update_col_from_def zeros_def vscale_def right_step_def
        reflect_right_def sum_delta_left)
  show ?thesis
    unfolding wy_invariant_def v_def [symmetric]
    using lv v prod
    by (simp add: update_col_from_def zeros_def agree_def)
qed

lemma wy_invariant_step:
  assumes inv: "wy_invariant m n H betas k st" and k: "1 \<le> k" "k < n" and n: "n \<le> m"
    and m: "nrows H = m"
  shows "wy_invariant m n H betas (Suc k) (factored_to_WY_step H betas k st)"
proof -
  obtain W Y vj where st: "st = (W, Y, vj)" by (cases st)
  obtain W' Y' vj' where step: "factored_to_WY_step H betas k (W, Y, vj) = (W', Y', vj')"
    by (cases "factored_to_WY_step H betas k (W, Y, vj)")
  have s: "nrows W = m" "ncols W = n" "nrows Y = m" "ncols Y = n" "length vj = m"
    and W0: "\<And>r c. r < m \<Longrightarrow> k \<le> c \<Longrightarrow> ent W r c = 0"
    and Y0: "\<And>r c. r < m \<Longrightarrow> k \<le> c \<Longrightarrow> ent Y r c = 0"
    and Yv: "\<And>r c. r < m \<Longrightarrow> c < k \<Longrightarrow> ent Y r c = hvec H c r"
    and P: "agree m (wy_product W Y k) (fold (right_step m H betas) [0..<k] ident)"
    using inv by (auto simp: wy_invariant_def st)
  have km: "k < m" using k n by simp
  have kn: "k \<le> ncols W" "k \<le> ncols Y" using s k by auto
  note e = factored_to_WY_step_entries [OF km m s(1) s(3) s(5) kn step]
  define \<beta> where "\<beta> = complex_of_real (betas ! k)"
  define u where "u = hvec H k"
  define z where "z r = \<beta> * (u r - (\<Sum>q<k. ent W r q * (\<Sum>i<m. cnj (ent Y i q) * u i)))" for r
  have W': "ent W' r c = (if c = k then z r else ent W r c)" if "r < m" for r c
    using e(6) [OF that] by (simp add: z_def \<beta>_def u_def)
  have Y': "ent Y' r c = (if c = k then u r else ent Y r c)" if "r < m" for r c
    using e(7) [OF that, of c] Y0 [OF that, of k] that by (auto simp: u_def hvec_def)
  have Qu: "(\<Sum>i<m. wy_product W Y k r i * u i)
              = u r - (\<Sum>q<k. ent W r q * (\<Sum>i<m. cnj (ent Y i q) * u i))" if "r < m" for r
  proof -
    have "(\<Sum>i<m. wy_product W Y k r i * u i)
            = (\<Sum>i<m. ident r i * u i) - (\<Sum>i<m. \<Sum>q<k. ent W r q * cnj (ent Y i q) * u i)"
      by (simp add: wy_product_def algebra_simps sum_subtractf sum_distrib_left sum_distrib_right)
    also have "(\<Sum>i<m. ident r i * u i) = u r" using that by (rule sum_delta_left)
    also have "(\<Sum>i<m. \<Sum>q<k. ent W r q * cnj (ent Y i q) * u i)
                 = (\<Sum>q<k. \<Sum>i<m. ent W r q * cnj (ent Y i q) * u i)"
      by (rule sum.swap)
    also have "\<dots> = (\<Sum>q<k. ent W r q * (\<Sum>i<m. cnj (ent Y i q) * u i))"
      by (simp add: sum_distrib_left mult.assoc)
    finally show ?thesis .
  qed
  have new: "wy_product W' Y' (Suc k) r c = right_step m H betas k (wy_product W Y k) r c"
    if "r < m" "c < m" for r c
  proof -
    have "(\<Sum>q<k. ent W' r q * cnj (ent Y' c q)) = (\<Sum>q<k. ent W r q * cnj (ent Y c q))"
      by (rule sum.cong) (auto simp: W' Y' that)
    then have "wy_product W' Y' (Suc k) r c = wy_product W Y k r c - z r * cnj (u c)"
      using that by (simp add: wy_product_def W' Y')
    also have "\<dots> = wy_product W Y k r c
                 - \<beta> * (\<Sum>i<m. wy_product W Y k r i * u i) * cnj (u c)"
      unfolding Qu [OF that(1)] z_def by simp
    also have "\<dots> = right_step m H betas k (wy_product W Y k) r c"
      by (simp add: right_step_def reflect_right_def \<beta>_def u_def)
    finally show ?thesis .
  qed
  have "agree m (wy_product W' Y' (Suc k)) (right_step m H betas k (wy_product W Y k))"
    using new by (simp add: agree_def)
  moreover have "agree m (right_step m H betas k (wy_product W Y k))
                   (right_step m H betas k (fold (right_step m H betas) [0..<k] ident))"
    by (rule right_step_agree) (rule P)
  ultimately have P': "agree m (wy_product W' Y' (Suc k))
                         (fold (right_step m H betas) [0..<Suc k] ident)"
    by (simp add: agree_def)
  have "wy_invariant m n H betas (Suc k) (W', Y', vj')"
    unfolding wy_invariant_def
    using e(1-5) s P' W0 Y0 Yv by (auto simp: W' Y' u_def)
  then show ?thesis by (simp add: st step)
qed

lemma wy_invariant_fold:
  assumes init: "wy_invariant m n H betas 1 st" and n: "n \<le> m" and m: "nrows H = m"
  shows "1 \<le> k \<Longrightarrow> k \<le> n \<Longrightarrow>
         wy_invariant m n H betas k (fold (factored_to_WY_step H betas) [1..<k] st)"
proof (induction k)
  case 0
  then show ?case by simp
next
  case (Suc k)
  show ?case
  proof (cases "k = 0")
    case True
    then show ?thesis using init by simp
  next
    case False
    then have k: "1 \<le> k" "k < n" using Suc.prems by auto
    have "wy_invariant m n H betas k (fold (factored_to_WY_step H betas) [1..<k] st)"
      using Suc.IH k by simp
    from wy_invariant_step [OF this k n m] show ?thesis
      using k by simp
  qed
qed

lemma factored_to_WY_state_invariant:
  assumes "nrows H = m" and "ncols H = n" and "n \<le> m" and "1 \<le> k" and "k \<le> n"
  shows "wy_invariant m n H betas k (factored_to_WY_state H betas k)"
proof -
  have "1 \<le> m" using assms by simp
  then have "wy_invariant m n H betas 1 (factored_to_WY_init H betas)"
    using wy_invariant_init [OF assms(1) _ assms(2), of betas]
    by (simp add: factored_to_WY_init_def Let_def assms)
  from wy_invariant_fold [OF this assms(3) assms(1) assms(4,5)]
  show ?thesis by (simp add: factored_to_WY_state_def)
qed









text \<open>
  C5 (amended). In \<open>factored_to_WY\<close>, for every column index \<open>1 \<le> j < N \<le> M\<close>, with
  \<open>(W, Y, vj)\<close> the arrays on entry to the iteration \<open>j\<close>: the vector stored into column
  \<open>j\<close> of \<open>W\<close> is \<open>beta_j (v_j - W[:, :j] (Y[:, :j]\<^sup>H v_j))\<close>, with the sign opposite to
  the one claimed, where \<open>v_j\<close> is the padded \<open>j\<close>-th Householder vector; and column
  \<open>j\<close> of \<open>Y\<close> from row \<open>j\<close> down is set to \<open>v_j[j:]\<close>.
\<close>

theorem factored_to_WY_column:
  assumes "1 \<le> j" and "j < ncols H" and "ncols H \<le> nrows H"
    and "factored_to_WY_state H betas j = (W, Y, vj)"
    and "factored_to_WY_step H betas j (W, Y, vj) = (W', Y', vj')"
  shows "(\<forall>r<nrows H. ent W' r j =
            complex_of_real (betas ! j) *
              (hvec H j r - (\<Sum>q<j. ent W r q * (\<Sum>i<nrows H. cnj (ent Y i q) * hvec H j i))))
       \<and> (\<forall>r<nrows H. j \<le> r \<longrightarrow> ent Y' r j = hvec H j r)"
proof -
  let ?m = "nrows H"
  have "wy_invariant ?m (ncols H) H betas j (W, Y, vj)"
    using factored_to_WY_state_invariant [OF refl refl assms(3) assms(1), of betas] assms(2,4)
    by simp
  then have s: "nrows W = ?m" "ncols W = ncols H" "nrows Y = ?m" "ncols Y = ncols H"
      "length vj = ?m"
    by (auto simp: wy_invariant_def)
  have j: "j < ?m" "j \<le> ncols W" "j \<le> ncols Y" using assms(2,3) s by auto
  note e = factored_to_WY_step_entries [OF j(1) refl s(1) s(3) s(5) j(2,3) assms(5)]
  show ?thesis using e(6,7) by simp
qed

text \<open>
  C5 (counterexample). For \<open>H = [[-1, -2], [0, -1]]\<close> and \<open>betas = [2, 2]\<close>, the factored
  QR of \<open>[[1, 2], [0, 1]]\<close>, the iteration \<open>j = 1\<close> stores \<open>2\<close> at \<open>W[1, 1]\<close>, where the
  claimed column has \<open>-2\<close>.
\<close>

theorem factored_to_WY_column_sign_counterexample:
  "ent (fst (factored_to_WY_step (mat_of_rows [[-1, -2], [0, -1]]) [2, 2] 1
          (factored_to_WY_state (mat_of_rows [[-1, -2], [0, -1]]) [2, 2] 1))) 1 1 = 2
   \<and> spec_z (mat_of_rows [[-1, -2], [0, -1]])
        (fst (factored_to_WY_state (mat_of_rows [[-1, -2], [0, -1]]) [2, 2] 1))
        (fst (snd (factored_to_WY_state (mat_of_rows [[-1, -2], [0, -1]]) [2, 2] 1)))
        [2, 2] 1 1 = - 2"
  by (simp add: factored_to_WY_state_def factored_to_WY_init_def factored_to_WY_step_def Let_def
      spec_z_def hvec_def mat_of_rows_def col_from_def update_col_from_def zeros_def vscale_def
      matvec_def dag_def slice_def)

theorem factored_to_WY_column_witness:
  "\<exists>W Y vj W' Y' vj'.
     (1::nat) \<le> 1 \<and> 1 < ncols (mat_of_rows [[-1, -2], [0, -1]])
     \<and> ncols (mat_of_rows [[-1, -2], [0, -1]]) \<le> nrows (mat_of_rows [[-1, -2], [0, -1]])
     \<and> factored_to_WY_state (mat_of_rows [[-1, -2], [0, -1]]) [2, 2] 1 = (W, Y, vj)
     \<and> factored_to_WY_step (mat_of_rows [[-1, -2], [0, -1]]) [2, 2] 1 (W, Y, vj) = (W', Y', vj')
     \<and> ent W' 1 1 = complex_of_real ([2, 2] ! 1) *
           (hvec (mat_of_rows [[-1, -2], [0, -1]]) 1 1
              - (\<Sum>q<1. ent W 1 q * (\<Sum>i<nrows (mat_of_rows [[-1, -2], [0, -1]]).
                    cnj (ent Y i q) * hvec (mat_of_rows [[-1, -2], [0, -1]]) 1 i)))
     \<and> ent Y' 1 1 = hvec (mat_of_rows [[-1, -2], [0, -1]]) 1 1"
proof -
  let ?H = "mat_of_rows [[-1, -2], [0, -1]]"
  obtain W Y vj where st: "factored_to_WY_state ?H [2, 2] 1 = (W, Y, vj)"
    by (cases "factored_to_WY_state ?H [2, 2] 1")
  obtain W' Y' vj' where step: "factored_to_WY_step ?H [2, 2] 1 (W, Y, vj) = (W', Y', vj')"
    by (cases "factored_to_WY_step ?H [2, 2] 1 (W, Y, vj)")
  have s: "(1::nat) \<le> 1" "1 < ncols ?H" "ncols ?H \<le> nrows ?H"
    by (simp_all add: mat_of_rows_def)
  have n: "(1::nat) < nrows ?H" by (simp add: mat_of_rows_def)
  show ?thesis
    using factored_to_WY_column [OF s st step] s st step n by blast
qed

subsection \<open>What \<open>house\<close> returns\<close>

lemma vdiv_nonzero: "d \<noteq> 0 \<Longrightarrow> vdiv xs d = Inr (map (\<lambda>x. x / d) xs)"
  by (induction xs) (simp_all add: fdiv_def)

lemma vdiv_zero: "xs \<noteq> [] \<Longrightarrow> vdiv xs 0 = Inl NonFinite"
  by (cases xs) (simp_all add: fdiv_def)

lemma sum_list_sq_nonneg: "0 \<le> (\<Sum>z\<leftarrow>xs. (cmod z)\<^sup>2)"
  by (rule sum_list_nonneg) auto

lemma linalg_norm_nonneg: "0 \<le> linalg_norm xs"
  by (simp add: linalg_norm_def sum_list_sq_nonneg)

lemma linalg_norm_sq: "(linalg_norm xs)\<^sup>2 = (\<Sum>z\<leftarrow>xs. (cmod z)\<^sup>2)"
  by (simp add: linalg_norm_def sum_list_sq_nonneg)

lemma linalg_norm_pair:
  assumes "0 \<le> T"
  shows "linalg_norm [x0, complex_of_real T] = sqrt ((cmod x0)\<^sup>2 + T\<^sup>2)"
  using assms by (simp add: linalg_norm_def)

lemma norm_sign: "x0 \<noteq> 0 \<Longrightarrow> cmod (sign x0) = 1"
  by (simp add: sign_def norm_divide)

lemma pivot_plus:
  assumes "x0 \<noteq> 0" and "0 \<le> N"
  shows "cmod (x0 + sign x0 * complex_of_real N) = cmod x0 + N"
proof -
  have "x0 + sign x0 * complex_of_real N = x0 * complex_of_real (1 + N / cmod x0)"
    using assms(1) by (simp add: sign_def field_simps)
  then have "cmod (x0 + sign x0 * complex_of_real N) = cmod x0 * \<bar>1 + N / cmod x0\<bar>"
    by (simp only: norm_mult norm_of_real)
  also have "\<bar>1 + N / cmod x0\<bar> = 1 + N / cmod x0"
    using assms by simp
  also have "cmod x0 * (1 + N / cmod x0) = cmod x0 + N"
    using assms(1) by (simp add: field_simps)
  finally show ?thesis .
qed

lemma pivot_minus_le:
  assumes "x0 \<noteq> 0" and "0 \<le> N"
  shows "cmod (x0 - sign x0 * complex_of_real N) \<le> cmod x0 + N"
proof -
  have "cmod (x0 - sign x0 * complex_of_real N) \<le> cmod x0 + cmod (sign x0 * complex_of_real N)"
    by (rule norm_triangle_ineq4)
  also have "cmod (sign x0 * complex_of_real N) = N"
    using assms by (simp add: norm_mult norm_sign)
  finally show ?thesis .
qed

lemma linalg_norm_Cons:
  "linalg_norm (x0 # t) = sqrt ((cmod x0)\<^sup>2 + (linalg_norm t)\<^sup>2)"
  by (simp add: linalg_norm_def sum_list_sq_nonneg)

lemma house_nonzero_head:
  assumes "x0 \<noteq> 0" and "linalg_norm t \<noteq> 0"
  shows "house (x0 # t) =
           Inr (1 # map (\<lambda>z. z / pivot (x0 # t)) t,
                2 / (1 + (linalg_norm t / cmod (pivot (x0 # t)))\<^sup>2))"
proof -
  let ?T = "linalg_norm t"
  let ?N = "linalg_norm (x0 # t)"
  have T: "0 < ?T" using assms(2) linalg_norm_nonneg [of t] by simp
  have N: "linalg_norm [x0, complex_of_real ?T] = ?N"
    using linalg_norm_pair [of ?T x0] linalg_norm_Cons [of x0 t] T by simp
  have N0: "0 \<le> ?N" by (rule linalg_norm_nonneg)
  have p: "cmod (x0 + sign x0 * complex_of_real ?N) = cmod x0 + ?N"
    by (rule pivot_plus [OF assms(1) N0])
  have m: "cmod (x0 - sign x0 * complex_of_real ?N) \<le> cmod x0 + ?N"
    by (rule pivot_minus_le [OF assms(1) N0])
  have pos: "0 < cmod x0 + ?N" using assms(1) N0 by (simp add: add_pos_nonneg)
  then have nz: "x0 + sign x0 * complex_of_real ?N \<noteq> 0" using p by auto
  have sq: "1 + (?T / (cmod x0 + ?N))\<^sup>2 \<noteq> 0"
    by (metis add_pos_nonneg less_numeral_extra(1) less_irrefl zero_le_power2)
  show ?thesis
    using assms T pos nz sq m
    by (simp add: house_def house_nonzero_norm_def N p pivot_def vdiv_nonzero fdiv_def Let_def
        del: linalg_norm_eq_0_iff)
qed

lemma house_zero_head:
  assumes "linalg_norm t \<noteq> 0"
  shows "house (0 # t) = Inl NonFinite"
proof -
  have "t \<noteq> []" using assms by (auto simp: linalg_norm_def)
  then show ?thesis
    using assms
    by (simp add: house_def house_nonzero_norm_def sign_def vdiv_zero Let_def)
qed

lemma house_zero_tail:
  assumes "linalg_norm t = 0"
  shows "house (x0 # t) = Inr (1 # t, if x0 = 0 then 0 else 2)"
  using assms by (simp add: house_def house_zero_norm_def)

lemma house_empty: "house [] = Inl IndexError"
  by (simp add: house_def house_zero_norm_def linalg_norm_def)

lemma house_fails_iff:
  "house x = Inl NonFinite \<longleftrightarrow> x \<noteq> [] \<and> hd x = 0 \<and> linalg_norm (tl x) \<noteq> 0"
proof (cases x)
  case Nil
  then show ?thesis by (simp add: house_empty)
next
  case (Cons x0 t)
  show ?thesis
  proof (cases "linalg_norm t = 0")
    case True
    then show ?thesis using Cons by (simp add: house_zero_tail)
  next
    case False
    then show ?thesis using Cons
      by (cases "x0 = 0") (simp_all add: house_zero_head house_nonzero_head)
  qed
qed

lemma sum_nth_eq_sum_list:
  fixes f :: "complex \<Rightarrow> complex"
  shows "(\<Sum>k<length t. f (t ! k)) = (\<Sum>z\<leftarrow>t. f z)"
proof -
  have "(\<Sum>z\<leftarrow>t. f z) = (\<Sum>i = 0..<length (map f t). map f t ! i)"
    by (rule sum_list_sum_nth)
  also have "\<dots> = (\<Sum>k<length t. f (t ! k))"
    by (simp add: atLeast0LessThan)
  finally show ?thesis by simp
qed

lemma mult_cnj_self: "z * cnj z = (complex_of_real (cmod z))\<^sup>2"
  by (simp add: complex_norm_square [symmetric])

lemma cnj_times_self_sum: "(\<Sum>z\<leftarrow>t. cnj z * z) = complex_of_real (\<Sum>z\<leftarrow>t. (cmod z)\<^sup>2)"
  by (induction t) (simp_all add: mult_cnj_self mult.commute [of "cnj _"])

lemma form_dense_P_apply:
  assumes "length x = length v" and "i < length v"
  shows "matvec (form_dense_P (v, beta)) x ! i =
           x ! i - complex_of_real beta * v ! i * (\<Sum>k<length v. cnj (v ! k) * x ! k)"
proof -
  let ?n = "length v"
  have "(\<Sum>k<?n. ((if i = k then 1 else 0) - complex_of_real beta * (v ! i * map cnj v ! k)) * x ! k)
          = (\<Sum>k<?n. (if i = k then x ! k else 0) - complex_of_real beta * v ! i * (cnj (v ! k) * x ! k))"
    by (rule sum.cong) (auto simp: algebra_simps)
  also have "\<dots> = x ! i - complex_of_real beta * v ! i * (\<Sum>k<?n. cnj (v ! k) * x ! k)"
    using assms(2) by (simp add: sum_subtractf sum_distrib_left)
  finally show ?thesis
    using assms
    by (simp add: form_dense_P_def matvec_def msub_def smult_def outer_def vdag_def eye_def Let_def)
qed

lemma form_dense_P_length:
  "length (matvec (form_dense_P (v, beta)) x) = length v"
  by (simp add: form_dense_P_def matvec_def msub_def eye_def Let_def)

lemma inner_Cons:
  fixes f :: "complex \<Rightarrow> complex"
  shows "(\<Sum>k<length (a # map f t). cnj ((a # map f t) ! k) * (x0 # t) ! k)
           = cnj a * x0 + (\<Sum>z\<leftarrow>t. cnj (f z) * z)"
proof -
  have "(\<Sum>k<length (a # map f t). cnj ((a # map f t) ! k) * (x0 # t) ! k)
          = cnj a * x0 + (\<Sum>k<length t. cnj (map f t ! k) * t ! k)"
    by (simp add: sum.lessThan_Suc_shift del: sum.lessThan_Suc)
  also have "(\<Sum>k<length t. cnj (map f t ! k) * t ! k) = (\<Sum>k<length t. cnj (f (t ! k)) * t ! k)"
    by (rule sum.cong) auto
  also have "\<dots> = (\<Sum>z\<leftarrow>t. cnj (f z) * z)"
    by (rule sum_nth_eq_sum_list [of "\<lambda>z. cnj (f z) * z"])
  finally show ?thesis .
qed

text \<open>The algebra of the pivot.\<close>

lemma pivot_identity:
  assumes x0: "x0 \<noteq> 0" and T: "0 < T" and N: "N = sqrt ((cmod x0)\<^sup>2 + T\<^sup>2)"
    and p: "p = x0 + sign x0 * complex_of_real N"
  shows "complex_of_real (2 / (1 + (T / cmod p)\<^sup>2)) * (x0 + complex_of_real (T\<^sup>2) / cnj p) = p"
proof -
  define a where "a = cmod x0 + N"
  have N0: "0 < N" using T N by (simp add: add_nonneg_pos)
  have N2: "N\<^sup>2 = (cmod x0)\<^sup>2 + T\<^sup>2" using N by simp
  have a: "cmod p = a" unfolding p a_def using x0 N0 by (intro pivot_plus) auto
  have a0: "0 < a" using N0 by (simp add: a_def add_nonneg_pos)
  have pnz: "p \<noteq> 0" using a a0 by auto
  have den: "a\<^sup>2 + T\<^sup>2 = 2 * N * a"
    using N2 by (simp add: a_def power2_eq_square algebra_simps)
  have beta: "2 / (1 + (T / a)\<^sup>2) = a / N"
  proof -
    have "1 + (T / a)\<^sup>2 = (a\<^sup>2 + T\<^sup>2) / a\<^sup>2"
      using a0 by (simp add: power_divide field_simps)
    then have "2 / (1 + (T / a)\<^sup>2) = 2 * a\<^sup>2 / (2 * N * a)"
      using den by simp
    also have "\<dots> = a / N" using a0 N0 by (simp add: power2_eq_square)
    finally show ?thesis .
  qed
  have x0p: "x0 * cnj p = complex_of_real ((cmod x0)\<^sup>2 + cmod x0 * N)"
  proof -
    have "x0 * cnj x0 = complex_of_real ((cmod x0)\<^sup>2)"
      by (simp add: mult_cnj_self)
    moreover have "x0 * cnj (sign x0) = complex_of_real (cmod x0)"
    proof -
      have "x0 * cnj (sign x0) = (x0 * cnj x0) / complex_of_real (cmod x0)"
        using x0 by (simp add: sign_def)
      also have "\<dots> = complex_of_real ((cmod x0)\<^sup>2) / complex_of_real (cmod x0)"
        by (simp add: mult_cnj_self)
      also have "\<dots> = complex_of_real (cmod x0)"
        using x0 by (simp add: power2_eq_square)
      finally show ?thesis .
    qed
    ultimately show ?thesis
      unfolding p by (simp add: algebra_simps)
  qed
  have num: "x0 * cnj p + complex_of_real (T\<^sup>2) = complex_of_real (N * a)"
  proof -
    have "(cmod x0)\<^sup>2 + cmod x0 * N + T\<^sup>2 = N * a"
      using N2 by (simp add: a_def power2_eq_square algebra_simps)
    then show ?thesis unfolding x0p by (metis of_real_add)
  qed
  have inner: "x0 + complex_of_real (T\<^sup>2) / cnj p = complex_of_real (N * a) / cnj p"
    using pnz num by (simp add: field_simps)
  have "complex_of_real (a / N) * (complex_of_real (N * a) / cnj p)
          = complex_of_real (a\<^sup>2) / cnj p"
    using N0 by (simp add: power2_eq_square)
  also have "complex_of_real (a\<^sup>2) = p * cnj p"
    using a by (simp add: mult_cnj_self)
  also have "p * cnj p / cnj p = p" using pnz by simp
  finally show ?thesis unfolding a beta inner .
qed

lemma linalg_norm_head_only:
  assumes "ys \<noteq> []" and "\<And>i. 0 < i \<Longrightarrow> i < length ys \<Longrightarrow> ys ! i = 0"
  shows "linalg_norm ys = cmod (ys ! 0)"
proof -
  obtain y0 rest where ys: "ys = y0 # rest" using assms(1) by (cases ys) auto
  have "\<forall>z\<in>set rest. z = 0"
  proof
    fix z assume "z \<in> set rest"
    then obtain i where "i < length rest" "rest ! i = z" by (auto simp: in_set_conv_nth)
    then show "z = 0" using assms(2) [of "Suc i"] ys by auto
  qed
  then have "linalg_norm rest = 0" by (simp add: linalg_norm_eq_0_iff)
  then show ?thesis by (simp add: ys linalg_norm_Cons)
qed

lemma house_reflects_zero_tail:
  fixes xh :: complex and t :: vec
  assumes T: "linalg_norm t = 0"
  defines "beta \<equiv> (if xh = 0 then 0 else 2 :: real)"
  defines "y \<equiv> matvec (form_dense_P (1 # t, beta)) (xh # t)"
  shows "y ! 0 = (if xh = 0 then 0 else - xh)" and "\<And>i. 0 < i \<Longrightarrow> i < length (xh # t) \<Longrightarrow> y ! i = 0"
proof -
  have z: "\<And>k. k < length t \<Longrightarrow> t ! k = 0" using T by (simp add: linalg_norm_eq_0_iff)
  have "(\<Sum>k<length (1 # map (\<lambda>z. z) t). cnj ((1 # map (\<lambda>z. z) t) ! k) * (xh # t) ! k)
          = cnj 1 * xh + (\<Sum>z\<leftarrow>t. cnj z * z)"
    by (rule inner_Cons)
  also have "(\<Sum>z\<leftarrow>t. cnj z * z) = complex_of_real ((linalg_norm t)\<^sup>2)"
    by (simp add: cnj_times_self_sum linalg_norm_sq del: of_real_power)
  finally have inner: "(\<Sum>k<length (1 # t). cnj ((1 # t) ! k) * (xh # t) ! k) = xh"
    using T by simp
  have y: "y ! i = (xh # t) ! i - complex_of_real beta * (1 # t) ! i * xh"
    if "i < length (1 # t)" for i
    unfolding y_def using form_dense_P_apply [of "xh # t" "1 # t" i beta] that inner by simp
  show "y ! 0 = (if xh = 0 then 0 else - xh)"
    using y [of 0] by (simp add: beta_def)
  show "y ! i = 0" if pos: "0 < i" and lt: "i < length (xh # t)" for i
  proof -
    obtain k where i: "i = Suc k" using pos by (cases i) auto
    then show ?thesis using y [of i] lt z [of k] by simp
  qed
qed

lemma house_reflects_nonzero:
  fixes xh :: complex and t :: vec
  assumes x0: "xh \<noteq> 0" and T: "linalg_norm t \<noteq> 0"
  defines "p \<equiv> pivot (xh # t)"
  defines "beta \<equiv> 2 / (1 + (linalg_norm t / cmod p)\<^sup>2)"
  defines "y \<equiv> matvec (form_dense_P (1 # map (\<lambda>z. z / p) t, beta)) (xh # t)"
  shows "y ! 0 = xh - p" and "\<And>i. 0 < i \<Longrightarrow> i < length (xh # t) \<Longrightarrow> y ! i = 0"
    and "cmod (xh - p) = linalg_norm (xh # t)"
proof -
  let ?T = "linalg_norm t"
  let ?N = "linalg_norm (xh # t)"
  let ?v = "1 # map (\<lambda>z. z / p) t"
  have T0: "0 < ?T" using T linalg_norm_nonneg [of t] by simp
  have N0: "0 \<le> ?N" by (rule linalg_norm_nonneg)
  have pdef: "p = xh + sign xh * complex_of_real ?N" by (simp add: p_def pivot_def)
  have "cmod p = cmod xh + ?N" unfolding pdef by (rule pivot_plus [OF x0 N0])
  moreover have "0 < cmod xh + ?N" using x0 N0 by (simp add: add_pos_nonneg)
  ultimately have pnz: "p \<noteq> 0" by auto
  have "(\<Sum>k<length ?v. cnj (?v ! k) * (xh # t) ! k) = cnj 1 * xh + (\<Sum>z\<leftarrow>t. cnj (z / p) * z)"
    by (rule inner_Cons)
  also have "(\<Sum>z\<leftarrow>t. cnj (z / p) * z) = (\<Sum>z\<leftarrow>t. cnj z * z) / cnj p"
    by (induction t) (simp_all add: add_divide_distrib)
  also have "(\<Sum>z\<leftarrow>t. cnj z * z) = complex_of_real (?T\<^sup>2)"
    by (simp add: cnj_times_self_sum linalg_norm_sq del: of_real_power)
  finally have inner: "(\<Sum>k<length ?v. cnj (?v ! k) * (xh # t) ! k)
                         = xh + complex_of_real (?T\<^sup>2) / cnj p"
    by simp
  have key: "complex_of_real beta * (xh + complex_of_real (?T\<^sup>2) / cnj p) = p"
    unfolding beta_def
    by (rule pivot_identity [OF x0 T0 _ pdef]) (simp add: linalg_norm_Cons)
  have y: "y ! i = (xh # t) ! i - ?v ! i * p" if "i < length ?v" for i
  proof -
    have "y ! i = (xh # t) ! i - complex_of_real beta * ?v ! i
                    * (xh + complex_of_real (?T\<^sup>2) / cnj p)"
      unfolding y_def inner [symmetric] using that by (intro form_dense_P_apply) auto
    also have "\<dots> = (xh # t) ! i
        - ?v ! i * (complex_of_real beta * (xh + complex_of_real (?T\<^sup>2) / cnj p))"
      by (simp add: algebra_simps)
    finally show ?thesis unfolding key .
  qed
  show "y ! 0 = xh - p" using y [of 0] by simp
  show "y ! i = 0" if pos: "0 < i" and lt: "i < length (xh # t)" for i
  proof -
    obtain k where i: "i = Suc k" using pos by (cases i) auto
    then show ?thesis using y [of i] lt pnz by simp
  qed
  have "xh - p = - (sign xh * complex_of_real ?N)" by (simp add: pdef)
  then have "cmod (xh - p) = cmod (sign xh * complex_of_real ?N)" by (simp only: norm_minus_cancel)
  also have "\<dots> = ?N" using x0 N0 by (simp add: norm_mult norm_sign)
  finally show "cmod (xh - p) = ?N" .
qed

text \<open>
  Wherever \<open>house\<close> returns, its result is a reflector of \<open>x\<close>: \<open>v[0] = 1\<close>, and the
  dense matrix \<open>P\<close> of \<open>form_dense_P\<close> applied to \<open>x\<close> has zeros below index 0 and the norm
  of \<open>x\<close>. By \<open>house_fails_iff\<close> it returns for every non-empty vector but those with
  \<open>x[0] = 0\<close> and a non-zero tail.
\<close>

lemma house_reflects:
  assumes "house x = Inr (v, beta)"
  shows "length v = length x \<and> v ! 0 = 1
       \<and> (\<forall>i. 0 < i \<and> i < length x \<longrightarrow> matvec (form_dense_P (v, beta)) x ! i = 0)
       \<and> linalg_norm (matvec (form_dense_P (v, beta)) x) = linalg_norm x"
proof (cases x)
  case Nil
  then show ?thesis using assms by (simp add: house_empty)
next
  case (Cons x0 t)
  let ?y = "matvec (form_dense_P (v, beta)) x"
  have ly: "length ?y = length v" by (rule form_dense_P_length)
  show ?thesis
  proof (cases "linalg_norm t = 0")
    case True
    then have vb: "v = 1 # t" "beta = (if x0 = 0 then 0 else 2)"
      using assms Cons by (simp_all add: house_zero_tail)
    note r = house_reflects_zero_tail [OF True, where xh = x0, folded vb Cons]
    have "linalg_norm ?y = cmod (?y ! 0)"
      using ly r(2) vb Cons by (intro linalg_norm_head_only) auto
    also have "\<dots> = cmod x0" using r(1) by simp
    also have "\<dots> = linalg_norm x" using True by (simp add: Cons linalg_norm_Cons)
    finally show ?thesis using r(2) vb Cons by simp
  next
    case False
    show ?thesis
    proof (cases "x0 = 0")
      case True
      then show ?thesis using assms Cons False by (simp add: house_zero_head)
    next
      case x0: False
      have vb: "v = 1 # map (\<lambda>z. z / pivot (x0 # t)) t"
        "beta = 2 / (1 + (linalg_norm t / cmod (pivot (x0 # t)))\<^sup>2)"
        using assms Cons by (simp_all add: house_nonzero_head [OF x0 False])
      note r = house_reflects_nonzero [OF x0 False, folded vb Cons]
      have "linalg_norm ?y = cmod (?y ! 0)"
        using ly r(2) vb Cons by (intro linalg_norm_head_only) auto
      also have "\<dots> = linalg_norm x" using r(1,3) by simp
      finally show ?thesis using r(2) vb Cons by simp
    qed
  qed
qed

subsection \<open>The factored QR where it returns\<close>

lemma reflect_left_involution:
  assumes "unit_reflector m u b"
  shows "reflect_left m u b (reflect_left m u b X) = X"
proof (intro ext)
  fix r c
  define S where "S = (\<Sum>i<m. cnj (u i) * X i c)"
  define n2 where "n2 = (\<Sum>i<m. cnj (u i) * u i)"
  define \<beta> where "\<beta> = complex_of_real b"
  have "(\<Sum>i<m. cnj (u i) * (X i c - \<beta> * u i * S)) = S - \<beta> * n2 * S"
    by (simp add: S_def n2_def algebra_simps sum_subtractf sum_distrib_left)
  then have "reflect_left m u b (reflect_left m u b X) r c
               = X r c - \<beta> * u r * S - \<beta> * u r * (S - \<beta> * n2 * S)"
    by (simp add: reflect_left_def S_def \<beta>_def)
  also have "\<dots> = X r c - \<beta> * u r * S * (2 - \<beta> * n2)"
    by (simp add: algebra_simps)
  also have "\<dots> = X r c"
    using assms by (auto simp: unit_reflector_def \<beta>_def n2_def)
  finally show "reflect_left m u b (reflect_left m u b X) r c = X r c" .
qed

lemma reflect_left_agree_on:
  assumes "agree_on m n X Y"
  shows "agree_on m n (reflect_left m u b X) (reflect_left m u b Y)"
proof -
  have "(\<Sum>i<m. cnj (u i) * X i c) = (\<Sum>i<m. cnj (u i) * Y i c)" if "c < n" for c
    by (rule sum.cong) (use assms that in \<open>auto simp: agree_on_def\<close>)
  then show ?thesis using assms by (simp add: agree_on_def reflect_left_def)
qed

lemma agree_on_trans: "agree_on m n X Y \<Longrightarrow> agree_on m n Y Z \<Longrightarrow> agree_on m n X Z"
  by (simp add: agree_on_def)

lemma agree_on_refl: "agree_on m n X X"
  by (simp add: agree_on_def)

lemma mm_reflect_left: "mm m (reflect_left m u b X) Y = reflect_left m u b (mm m X Y)"
proof (intro ext)
  fix r c
  have "(\<Sum>k<m. (\<Sum>i<m. cnj (u i) * X i k) * Y k c) = (\<Sum>k<m. \<Sum>i<m. cnj (u i) * X i k * Y k c)"
    by (simp add: sum_distrib_right)
  also have "\<dots> = (\<Sum>i<m. \<Sum>k<m. cnj (u i) * X i k * Y k c)"
    by (rule sum.swap)
  also have "\<dots> = (\<Sum>i<m. cnj (u i) * (\<Sum>k<m. X i k * Y k c))"
    by (simp add: sum_distrib_left mult.assoc)
  finally have sw: "(\<Sum>k<m. (\<Sum>i<m. cnj (u i) * X i k) * Y k c)
                      = (\<Sum>i<m. cnj (u i) * (\<Sum>k<m. X i k * Y k c))" .
  have "mm m (reflect_left m u b X) Y r c
          = (\<Sum>k<m. X r k * Y k c)
            - complex_of_real b * u r * (\<Sum>k<m. (\<Sum>i<m. cnj (u i) * X i k) * Y k c)"
    by (simp add: mm_def reflect_left_def algebra_simps sum_subtractf sum_distrib_left)
  then show "mm m (reflect_left m u b X) Y r c = reflect_left m u b (mm m X Y) r c"
    unfolding sw by (simp add: mm_def reflect_left_def)
qed

lemma mm_ident: "r < m \<Longrightarrow> mm m ident Y r c = Y r c"
  by (simp add: mm_def sum_delta_left)

lemma gram_reflect_left:
  assumes "unit_reflector m u b"
  shows "gram m (reflect_left m u b X) = gram m X"
proof (intro ext)
  fix r c
  define S where "S j = (\<Sum>i<m. cnj (u i) * X i j)" for j
  define n2 where "n2 = (\<Sum>i<m. cnj (u i) * u i)"
  define \<beta> where "\<beta> = complex_of_real b"
  have cS: "(\<Sum>k<m. cnj (X k r) * u k) = cnj (S r)"
    by (simp add: S_def mult.commute)
  have "gram m (reflect_left m u b X) r c
          = (\<Sum>k<m. (cnj (X k r) - \<beta> * cnj (u k) * cnj (S r)) * (X k c - \<beta> * u k * S c))"
    by (simp add: gram_def reflect_left_def S_def \<beta>_def)
  also have "\<dots> = (\<Sum>k<m. cnj (X k r) * X k c - \<beta> * S c * (cnj (X k r) * u k)
                        - \<beta> * cnj (S r) * (cnj (u k) * X k c)
                        + \<beta> * \<beta> * cnj (S r) * S c * (cnj (u k) * u k))"
    by (rule sum.cong) (auto simp: algebra_simps)
  also have "\<dots> = gram m X r c - \<beta> * S c * cnj (S r) - \<beta> * cnj (S r) * S c
                        + \<beta> * \<beta> * cnj (S r) * S c * n2"
    by (simp add: sum.distrib sum_subtractf sum_distrib_left [symmetric] cS gram_def n2_def
        S_def [symmetric])
  also have "\<dots> = gram m X r c - \<beta> * cnj (S r) * S c * (2 - \<beta> * n2)"
    by (simp add: algebra_simps)
  also have "\<dots> = gram m X r c"
    using assms by (auto simp: unit_reflector_def \<beta>_def n2_def)
  finally show "gram m (reflect_left m u b X) r c = gram m X r c" .
qed

lemma gram_ident: "r < m \<Longrightarrow> gram m ident r c = ident r c"
proof -
  assume r: "r < m"
  have "gram m ident r c = (\<Sum>k<m. ident r k * ident k c)"
    unfolding gram_def by (rule sum.cong) (auto simp: ident_def)
  also have "\<dots> = ident r c" using r by (rule sum_delta_left)
  finally show ?thesis .
qed

lemma foldr_left_mm:
  "mm m (foldr (left_step m H betas) js X) Y = foldr (left_step m H betas) js (mm m X Y)"
  by (induction js) (simp_all add: left_step_def mm_reflect_left)

lemma foldr_left_agree_on:
  "agree_on m n X Y \<Longrightarrow>
     agree_on m n (foldr (left_step m H betas) js X) (foldr (left_step m H betas) js Y)"
  by (induction js) (simp_all add: left_step_def reflect_left_agree_on)

lemma left_step_involution:
  "unit_reflector m (hvec H j) (betas ! j) \<Longrightarrow>
     left_step m H betas j (left_step m H betas j X) = X"
  by (simp add: left_step_def reflect_left_involution)

lemma gram_left_step:
  "unit_reflector m (hvec H j) (betas ! j) \<Longrightarrow> gram m (left_step m H betas j X) = gram m X"
  by (simp add: left_step_def gram_reflect_left)

lemma foldr_fold_left_involution:
  assumes "\<And>j. j \<in> set js \<Longrightarrow> unit_reflector m (hvec H j) (betas ! j)"
  shows "foldr (left_step m H betas) js (fold (left_step m H betas) js X) = X"
  using assms
proof (induction js arbitrary: X)
  case Nil
  show ?case by simp
next
  case (Cons j js)
  have "foldr (left_step m H betas) js (fold (left_step m H betas) js (left_step m H betas j X))
          = left_step m H betas j X"
    using Cons.prems by (intro Cons.IH) auto
  then show ?case
    using Cons.prems [of j] by (simp add: left_step_involution)
qed

lemma gram_foldr_left:
  assumes "\<And>j. j \<in> set js \<Longrightarrow> unit_reflector m (hvec H j) (betas ! j)"
  shows "gram m (foldr (left_step m H betas) js X) = gram m X"
  using assms by (induction js) (simp_all add: gram_left_step)

lemma mm_agree:
  assumes "agree m X X'" and "agree_on m n Y Y'" and "r < m" and "c < n"
  shows "mm m X Y r c = mm m X' Y' r c"
  unfolding mm_def
  by (rule sum.cong) (use assms in \<open>auto simp: agree_def agree_on_def\<close>)

lemma gram_agree:
  assumes "agree m X X'" and "r < m" and "c < m"
  shows "gram m X r c = gram m X' r c"
  unfolding gram_def
  by (rule sum.cong) (use assms in \<open>auto simp: agree_def\<close>)

lemma factored_to_QR_correct:
  assumes n: "ncols H \<le> nrows H"
    and u: "\<And>j. j < ncols H \<Longrightarrow> unit_reflector (nrows H) (hvec H j) (betas ! j)"
    and R: "agree_on (nrows H) (ncols H) (ent (triu H))
              (fold (left_step (nrows H) H betas) [0..<ncols H] (ent A))"
    and QR: "factored_to_QR H betas = (Q, R')"
  shows "\<forall>i<nrows H. \<forall>j<ncols H. ent (matmul Q R') i j = ent A i j"
    and "\<forall>i<nrows H. \<forall>j<nrows H. ent (matmul (dag Q) Q) i j = ident i j"
    and "\<forall>i<nrows H. \<forall>j<ncols H. j < i \<longrightarrow> ent R' i j = 0"
proof -
  let ?m = "nrows H" and ?n = "ncols H"
  let ?L = "left_step ?m H betas"
  have Q: "Q = fst (factored_to_QR H betas)" and R': "R' = triu H"
    using QR by (auto simp: factored_to_QR_def Let_def)
  have sQ: "nrows Q = ?m" "ncols Q = ?m"
    and aQ: "agree ?m (ent Q) (foldr ?L [0..<?n] ident)"
    unfolding Q using factored_to_QR_entries [OF n] by auto
  have us: "\<And>j. j \<in> set [0..<?n] \<Longrightarrow> unit_reflector ?m (hvec H j) (betas ! j)"
    using u by simp
  show "\<forall>i<?m. \<forall>j<?n. ent (matmul Q R') i j = ent A i j"
  proof (intro allI impI)
    fix i j assume i: "i < ?m" and j: "j < ?n"
    let ?B = "fold ?L [0..<?n] (ent A)"
    have "ent (matmul Q R') i j = mm ?m (ent Q) (ent (triu H)) i j"
      using sQ by (simp add: matmul_def mm_def R')
    also have "\<dots> = mm ?m (foldr ?L [0..<?n] ident) ?B i j"
      by (rule mm_agree [OF aQ R i j])
    also have "\<dots> = foldr ?L [0..<?n] (mm ?m ident ?B) i j"
      by (simp add: foldr_left_mm)
    also have "\<dots> = foldr ?L [0..<?n] ?B i j"
    proof -
      have "agree_on ?m ?n (mm ?m ident ?B) ?B" by (simp add: agree_on_def mm_ident)
      from foldr_left_agree_on [OF this] show ?thesis using i j by (simp add: agree_on_def)
    qed
    also have "\<dots> = ent A i j"
      using foldr_fold_left_involution [of "[0..<?n]" ?m H betas "ent A"] us by simp
    finally show "ent (matmul Q R') i j = ent A i j" .
  qed
  show "\<forall>i<?m. \<forall>j<?m. ent (matmul (dag Q) Q) i j = ident i j"
  proof (intro allI impI)
    fix i j assume i: "i < ?m" and j: "j < ?m"
    have "ent (matmul (dag Q) Q) i j = gram ?m (ent Q) i j"
      using sQ by (simp add: matmul_def dag_def gram_def)
    also have "\<dots> = gram ?m (foldr ?L [0..<?n] ident) i j"
      by (rule gram_agree [OF aQ i j])
    also have "\<dots> = gram ?m ident i j"
      using gram_foldr_left [of "[0..<?n]" ?m H betas ident] us by simp
    also have "\<dots> = ident i j" using i by (rule gram_ident)
    finally show "ent (matmul (dag Q) Q) i j = ident i j" .
  qed
  show "\<forall>i<?m. \<forall>j<?n. j < i \<longrightarrow> ent R' i j = 0"
    by (simp add: R' triu_def)
qed

lemma sum_list_sq_divide:
  "(\<Sum>z\<leftarrow>map (\<lambda>z. z / p) t. (cmod z)\<^sup>2) = (\<Sum>z\<leftarrow>t. (cmod z)\<^sup>2) / (cmod p)\<^sup>2"
  by (induction t) (simp_all add: norm_divide power_divide add_divide_distrib)

lemma house_unit:
  assumes "house x = Inr (v, beta)"
  shows "beta = 0 \<or> beta * (\<Sum>z\<leftarrow>v. (cmod z)\<^sup>2) = 2"
proof (cases x)
  case Nil
  then show ?thesis using assms by (simp add: house_empty)
next
  case (Cons x0 t)
  show ?thesis
  proof (cases "linalg_norm t = 0")
    case True
    then have vb: "v = 1 # t" "beta = (if x0 = 0 then 0 else 2)"
      using assms Cons by (simp_all add: house_zero_tail)
    have "(\<Sum>z\<leftarrow>t. (cmod z)\<^sup>2) = 0"
      using True linalg_norm_sq [of t] by simp
    then show ?thesis by (simp add: vb)
  next
    case False
    show ?thesis
    proof (cases "x0 = 0")
      case True
      then show ?thesis using assms Cons False by (simp add: house_zero_head)
    next
      case x0: False
      let ?p = "pivot (x0 # t)"
      let ?T = "linalg_norm t"
      have vb: "v = 1 # map (\<lambda>z. z / ?p) t" "beta = 2 / (1 + (?T / cmod ?p)\<^sup>2)"
        using assms Cons by (simp_all add: house_nonzero_head [OF x0 False])
      have "(\<Sum>z\<leftarrow>map (\<lambda>z. z / ?p) t. (cmod z)\<^sup>2) = (\<Sum>z\<leftarrow>t. (cmod z)\<^sup>2) / (cmod ?p)\<^sup>2"
        by (rule sum_list_sq_divide)
      also have "\<dots> = (?T / cmod ?p)\<^sup>2"
        by (simp add: linalg_norm_sq power_divide)
      finally have s: "(\<Sum>z\<leftarrow>v. (cmod z)\<^sup>2) = 1 + (?T / cmod ?p)\<^sup>2"
        by (simp add: vb)
      define d where "d = 1 + (?T / cmod ?p)\<^sup>2"
      have "d \<noteq> 0" unfolding d_def
        by (metis add_pos_nonneg less_numeral_extra(1) less_irrefl zero_le_power2)
      moreover have "beta = 2 / d" by (simp add: vb(2) d_def)
      ultimately have "beta * d = 2" by simp
      then show ?thesis by (simp only: s d_def) simp
    qed
  qed
qed

lemma sum_list_cnj_nth:
  "(\<Sum>l<length v. cnj (v ! l) * v ! l) = complex_of_real (\<Sum>z\<leftarrow>v. (cmod z)\<^sup>2)"
proof -
  have "(\<Sum>l<length v. cnj (v ! l) * v ! l) = (\<Sum>z\<leftarrow>v. cnj z * z)"
    by (rule sum_nth_eq_sum_list [of "\<lambda>z. cnj z * z"])
  then show ?thesis by (simp add: cnj_times_self_sum)
qed

lemma qr_invariant_step:
  assumes inv: "qr_invariant A k (H, betas)" and k: "k < ncols A" and n: "ncols A \<le> nrows A"
    and step: "house_qr_factored_step k (H, betas) = Inr (H', betas')"
  shows "qr_invariant A (Suc k) (H', betas')"
proof -
  let ?m = "nrows A" and ?n = "ncols A"
  define B where "B = fold (left_step ?m H betas) [0..<k] (ent A)"
  have s: "nrows H = ?m" "ncols H = ?n" "length betas = k"
    and I1: "\<And>r c. r < ?m \<Longrightarrow> c < ?n \<Longrightarrow> k \<le> c \<or> r \<le> c \<Longrightarrow> ent H r c = B r c"
    and I2: "\<And>r c. r < ?m \<Longrightarrow> c < k \<Longrightarrow> c < r \<Longrightarrow> B r c = 0"
    and I3: "\<And>j. j < k \<Longrightarrow> unit_reflector ?m (hvec H j) (betas ! j)"
    using inv by (auto simp: qr_invariant_def B_def)
  have km: "k < ?m" using k n by simp
  define x where "x = col_from H k k"
  obtain v \<beta> where h: "house x = Inr (v, \<beta>)"
    using step by (auto simp: house_qr_factored_step_def x_def split: sum.splits)
  have lx: "length x = ?m - k" by (simp add: x_def col_from_def s)
  have xn: "x ! l = ent H (k + l) k" if "l < ?m - k" for l
    using that by (simp add: x_def col_from_def s)
  note hr = house_reflects [OF h]
  have lv: "length v = ?m - k" and v0: "v ! 0 = 1" using hr lx by auto
  define T where "T = trailing H k k"
  have T: "nrows T = ?m - k" "ncols T = ?n - k" "\<And>i j. ent T i j = ent H (k + i) (k + j)"
    by (simp_all add: T_def trailing_def slice_def s)
  define H1 where "H1 = update_trailing H k k (house_leftmult T v \<beta>)"
  have res: "H' = update_col_from H1 (k + 1) k (drop 1 v)" "betas' = betas @ [\<beta>]"
    using step h km
    by (auto simp: house_qr_factored_step_def x_def [symmetric] Let_def H1_def T_def
        update_trailing_def s)
  have s': "nrows H' = ?m" "ncols H' = ?n" "length betas' = Suc k"
    by (simp_all add: res H1_def update_col_from_def update_trailing_def s)
  define u where "u i = (if i < k then 0 else v ! (i - k))" for i
  have H'old: "ent H' r c = ent H r c" if "r < k \<or> c < k" for r c
    using that by (auto simp: res H1_def update_col_from_def update_trailing_def)
  have H'col: "ent H' r k = v ! (r - k)" if "k < r" "r < ?m" for r
  proof -
    have "Suc (r - Suc k) = r - k" using that by simp
    then show ?thesis using that lv by (simp add: res update_col_from_def)
  qed
  have H'new: "ent H' r c = ent H r c
      - complex_of_real \<beta> * u r * (\<Sum>i<?m. cnj (u i) * ent H i c)"
    if r: "k \<le> r" "r < ?m" and c: "k \<le> c" "c < ?n" and nc: "c = k \<longrightarrow> r = k" for r c
  proof -
    have "ent H' r c = ent (house_leftmult T v \<beta>) (r - k) (c - k)"
      using r c nc by (auto simp: res H1_def update_col_from_def update_trailing_def)
    also have "\<dots> = ent T (r - k) (c - k)
        - complex_of_real \<beta> * v ! (r - k) * (\<Sum>l<length v. cnj (v ! l) * ent T l (c - k))"
      using r c T lv by (intro house_leftmult_entry) auto
    also have "(\<Sum>l<length v. cnj (v ! l) * ent T l (c - k))
                 = (\<Sum>l<?m - k. cnj (u (k + l)) * ent H (k + l) c)"
      unfolding lv using c by (intro sum.cong) (auto simp: T u_def)
    also have "\<dots> = (\<Sum>i<?m. cnj (u i) * ent H i c)"
      using km by (intro sum_drop_zero_prefix) (auto simp: u_def)
    finally show ?thesis using r c by (simp add: T u_def)
  qed
  have hv_old: "hvec H' j = hvec H j" if "j < k" for j
    using that by (auto simp: hvec_def fun_eq_iff H'old)
  have hv_new: "hvec H' k i = u i" if "i < ?m" for i
    using that v0 H'col by (auto simp: hvec_def u_def)
  have b_old: "betas' ! j = betas ! j" if "j < k" for j
    using that s by (simp add: res nth_append)
  have b_new: "betas' ! k = \<beta>" using s by (simp add: res nth_append)
  have "fold (left_step ?m H' betas') [0..<k] (ent A) = fold (left_step ?m H betas) [0..<k] (ent A)"
    by (rule fold_cong) (auto simp: left_step_def hv_old b_old)
  then have B': "fold (left_step ?m H' betas') [0..<Suc k] (ent A)
                  = reflect_left ?m (hvec H' k) \<beta> B"
    by (simp add: B_def left_step_def b_new)
  define B1 where "B1 = reflect_left ?m (hvec H' k) \<beta> B"
  have B1: "B1 r c = B r c - complex_of_real \<beta> * u r * (\<Sum>i<?m. cnj (u i) * B i c)"
    if "r < ?m" for r c
  proof -
    have "(\<Sum>i<?m. cnj (hvec H' k i) * B i c) = (\<Sum>i<?m. cnj (u i) * B i c)"
      by (rule sum.cong) (auto simp: hv_new)
    then show ?thesis using that by (simp add: B1_def reflect_left_def hv_new)
  qed
  have J1: "ent H' r c = B1 r c" if r: "r < ?m" and c: "c < ?n" and rc: "Suc k \<le> c \<or> r \<le> c"
    for r c
  proof (cases "r < k")
    case True
    then have "ent H' r c = B r c" using I1 [OF r c] rc by (auto simp: H'old)
    then show ?thesis using True r by (simp add: B1 u_def)
  next
    case False
    then have kr: "k \<le> r" by simp
    have kc: "k \<le> c" using rc kr by auto
    have nc: "c = k \<longrightarrow> r = k" using rc kr by auto
    have "(\<Sum>i<?m. cnj (u i) * ent H i c) = (\<Sum>i<?m. cnj (u i) * B i c)"
      by (rule sum.cong) (use I1 c kc in auto)
    then show ?thesis
      using H'new [OF kr r kc c nc] I1 [OF r c] kc r by (simp add: B1)
  qed
  have J2: "B1 r c = 0" if r: "r < ?m" and c: "c < Suc k" and cr: "c < r" for r c
  proof (cases "c < k")
    case True
    have "(\<Sum>i<?m. cnj (u i) * B i c) = (\<Sum>i<?m. 0)"
    proof (rule sum.cong [OF refl])
      fix i assume "i \<in> {..<?m}"
      then show "cnj (u i) * B i c = 0"
        using I2 [of i c] True by (cases "i < k") (auto simp: u_def)
    qed
    then show ?thesis using I2 [OF r True cr] r by (simp add: B1)
  next
    case False
    then have ck: "c = k" using c by simp
    have rk: "0 < r - k" "r - k < length x" using cr ck r lx by auto
    have "matvec (form_dense_P (v, \<beta>)) x ! (r - k) = 0" using hr rk by blast
    moreover have "matvec (form_dense_P (v, \<beta>)) x ! (r - k)
        = x ! (r - k) - complex_of_real \<beta> * v ! (r - k) * (\<Sum>l<length v. cnj (v ! l) * x ! l)"
      using rk lx lv by (intro form_dense_P_apply) auto
    moreover have "(\<Sum>l<length v. cnj (v ! l) * x ! l) = (\<Sum>l<?m - k. cnj (u (k + l)) * B (k + l) k)"
      unfolding lv using I1 k by (intro sum.cong) (auto simp: xn u_def)
    moreover have "\<dots> = (\<Sum>i<?m. cnj (u i) * B i k)"
      using km by (intro sum_drop_zero_prefix) (auto simp: u_def)
    moreover have "x ! (r - k) = B r k" using xn [of "r - k"] rk lx I1 [OF r k] cr ck by simp
    ultimately show ?thesis using r cr ck by (simp add: B1 u_def)
  qed
  have J3: "unit_reflector ?m (hvec H' j) (betas' ! j)" if "j < Suc k" for j
  proof (cases "j < k")
    case True
    then show ?thesis using I3 by (simp add: hv_old b_old)
  next
    case False
    then have jk: "j = k" using that by simp
    have "(\<Sum>i<?m. cnj (hvec H' k i) * hvec H' k i) = (\<Sum>i<?m. cnj (u i) * u i)"
      by (rule sum.cong) (auto simp: hv_new)
    also have "\<dots> = (\<Sum>l<?m - k. cnj (u (k + l)) * u (k + l))"
      using km by (intro sum_drop_zero_prefix [symmetric]) (auto simp: u_def)
    also have "\<dots> = (\<Sum>l<length v. cnj (v ! l) * v ! l)"
      unfolding lv by (rule sum.cong) (auto simp: u_def)
    also have "\<dots> = complex_of_real (\<Sum>z\<leftarrow>v. (cmod z)\<^sup>2)" by (rule sum_list_cnj_nth)
    finally have e: "(\<Sum>i<?m. cnj (hvec H' k i) * hvec H' k i)
                       = complex_of_real (\<Sum>z\<leftarrow>v. (cmod z)\<^sup>2)" .
    have "complex_of_real \<beta> * complex_of_real (\<Sum>z\<leftarrow>v. (cmod z)\<^sup>2) = 2"
      if "\<beta> * (\<Sum>z\<leftarrow>v. (cmod z)\<^sup>2) = 2"
      using that by (metis of_real_mult of_real_numeral)
    then show ?thesis
      using house_unit [OF h] unfolding unit_reflector_def jk b_new e by blast
  qed
  have B'': "left_step ?m H' betas' k (fold (left_step ?m H' betas') [0..<k] (ent A)) = B1"
    using B' by (simp add: B1_def)
  show ?thesis
    unfolding qr_invariant_def using s' J1 J2 J3
    by (simp add: B'')
qed

lemma qr_invariant_init: "qr_invariant A 0 (A, [])"
  by (simp add: qr_invariant_def)

lemma qr_invariant_loop:
  assumes n: "ncols A \<le> nrows A"
  shows "k \<le> ncols A \<Longrightarrow> qr_invariant A k st \<Longrightarrow>
         for_loop house_qr_factored_step [k..<ncols A] st = Inr st' \<Longrightarrow>
         qr_invariant A (ncols A) st'"
proof (induction "ncols A - k" arbitrary: k st)
  case 0
  then have "[k..<ncols A] = []" "k = ncols A" by auto
  then show ?case using 0 by simp
next
  case (Suc d)
  then have k: "k < ncols A" by simp
  obtain H betas where st: "st = (H, betas)" by (cases st)
  have "for_loop house_qr_factored_step (k # [Suc k..<ncols A]) st = Inr st'"
    using Suc.prems(3) k by (simp add: upt_conv_Cons)
  then obtain st1 where 1: "house_qr_factored_step k st = Inr st1"
    and 2: "for_loop house_qr_factored_step [Suc k..<ncols A] st1 = Inr st'"
    by (auto split: sum.splits)
  obtain H1 betas1 where st1: "st1 = (H1, betas1)" by (cases st1)
  have "qr_invariant A (Suc k) st1"
    using qr_invariant_step [OF _ k n] Suc.prems(2) 1 unfolding st st1 by blast
  moreover have "d = ncols A - Suc k" "Suc k \<le> ncols A" using Suc.hyps(2) k by auto
  ultimately show ?case using Suc.hyps(1) 2 by blast
qed

lemma house_qr_factored_invariant:
  assumes "house_qr_factored A = Inr (H, betas)" and "ncols A \<le> nrows A"
  shows "qr_invariant A (ncols A) (H, betas)"
  using qr_invariant_loop [OF assms(2), of 0 "(A, [])" "(H, betas)"] assms(1)
  by (simp add: qr_invariant_init house_qr_factored_def)

text \<open>
  Whenever the factored QR of a matrix with \<open>M \<ge> N\<close> returns, its conversion to dense
  form is a QR factorization: \<open>Q R = A\<close>, \<open>Q\<^sup>H Q = I\<close>, and \<open>R\<close> is upper triangular.
  It fails to return only through \<open>house\<close>, on a column whose head is zero and whose tail
  is not.
\<close>

lemma house_qr_factored_correct:
  assumes f: "house_qr_factored A = Inr (H, betas)" and n: "ncols A \<le> nrows A"
    and QR: "factored_to_QR H betas = (Q, R)"
  shows "(\<forall>i<nrows A. \<forall>j<ncols A. ent (matmul Q R) i j = ent A i j)
       \<and> (\<forall>i<nrows A. \<forall>j<nrows A. ent (matmul (dag Q) Q) i j = ident i j)
       \<and> (\<forall>i<nrows A. \<forall>j<ncols A. j < i \<longrightarrow> ent R i j = 0)"
proof -
  let ?m = "nrows A" and ?n = "ncols A"
  let ?B = "fold (left_step ?m H betas) [0..<?n] (ent A)"
  have inv: "qr_invariant A ?n (H, betas)" by (rule house_qr_factored_invariant [OF f n])
  then have s: "nrows H = ?m" "ncols H = ?n"
    and I1: "\<And>r c. r < ?m \<Longrightarrow> c < ?n \<Longrightarrow> r \<le> c \<Longrightarrow> ent H r c = ?B r c"
    and I2: "\<And>r c. r < ?m \<Longrightarrow> c < ?n \<Longrightarrow> c < r \<Longrightarrow> ?B r c = 0"
    and I3: "\<And>j. j < ?n \<Longrightarrow> unit_reflector ?m (hvec H j) (betas ! j)"
    by (auto simp: qr_invariant_def)
  have R: "agree_on (nrows H) (ncols H) (ent (triu H))
             (fold (left_step (nrows H) H betas) [0..<ncols H] (ent A))"
    unfolding s agree_on_def triu_def using I1 I2 by auto
  have n': "ncols H \<le> nrows H" using n s by simp
  have u: "\<And>j. j < ncols H \<Longrightarrow> unit_reflector (nrows H) (hvec H j) (betas ! j)"
    using I3 s by simp
  show ?thesis
    using factored_to_QR_correct [OF n' u R QR] unfolding s by blast
qed

lemma dense_of_factored_correct:
  assumes "dense_of_factored A = Inr (Q, R)" and "ncols A \<le> nrows A"
  shows "(\<forall>i<nrows A. \<forall>j<ncols A. ent (matmul Q R) i j = ent A i j)
       \<and> (\<forall>i<nrows A. \<forall>j<nrows A. ent (matmul (dag Q) Q) i j = ident i j)
       \<and> (\<forall>i<nrows A. \<forall>j<ncols A. j < i \<longrightarrow> ent R i j = 0)"
proof -
  obtain h beta where hb: "house_qr_factored A = Inr (h, beta)"
    and d: "factored_to_QR h beta = (Q, R)"
    using assms(1) by (auto simp: dense_of_factored_def split: sum.splits)
  show ?thesis by (rule house_qr_factored_correct [OF hb assms(2) d])
qed

subsection \<open>Recursive QR against the factored QR\<close>










end
